theory Spec2Isabelle
  imports Main "HOL-Library.Multiset"
begin

section \<open>Python values\<close>

subsection \<open>Strings as lists of code points\<close>

text \<open>
  A Python \<open>str\<close> is a sequence of Unicode code points, so it is modelled as a list
  of natural numbers. \<open>ustr\<close> turns an ASCII literal into such a list; the euro sign is
  the code point 8364.
\<close>

type_synonym ustr = "nat list"

definition ustr :: "string \<Rightarrow> ustr" where
  "ustr s = map of_char s"

definition euro_sign :: nat where
  "euro_sign = 8364"

text \<open>
  \<open>str.isspace\<close>, \<open>str.strip()\<close> and the regular expression class \<open>\s\<close> share one
  table in CPython: the code points 9-13, 28-32, 133, 160, 5760, 8192-8202, 8232, 8233,
  8239, 8287 and 12288.
\<close>

definition is_space :: "nat \<Rightarrow> bool" where
  "is_space c \<longleftrightarrow>
     (9 \<le> c \<and> c \<le> 13) \<or> (28 \<le> c \<and> c \<le> 32) \<or> c = 133 \<or> c = 160 \<or> c = 5760 \<or>
     (8192 \<le> c \<and> c \<le> 8202) \<or> c = 8232 \<or> c = 8233 \<or> c = 8239 \<or> c = 8287 \<or> c = 12288"

text \<open>
  The class \<open>\d\<close> of a \<open>str\<close> pattern is the Unicode category Nd, and \<open>int()\<close> reads
  exactly these characters as digits. Decimal digits come in runs of ten consecutive code
  points, zero first; \<open>decimal_zeros\<close> lists the zero of every run (Unicode 14.0).
\<close>

definition decimal_zeros :: "nat list" where
  "decimal_zeros =
     [48, 1632, 1776, 1984, 2406, 2534, 2662, 2790, 2918, 3046, 3174, 3302, 3430, 3558,
      3664, 3792, 3872, 4160, 4240, 6112, 6160, 6470, 6608, 6784, 6800, 6992, 7088, 7232,
      7248, 42528, 43216, 43264, 43472, 43504, 43600, 44016, 65296, 66720, 68912, 69734,
      69872, 69942, 70096, 70384, 70736, 70864, 71248, 71360, 71472, 71904, 72016, 72784,
      73040, 73120, 92768, 92864, 93008, 120782, 120792, 120802, 120812, 120822, 123200,
      123632, 125264, 130032]"

definition decimal_value :: "nat \<Rightarrow> nat option" where
  "decimal_value c =
     (case find (\<lambda>z. z \<le> c \<and> c < z + 10) decimal_zeros of
        None \<Rightarrow> None
      | Some z \<Rightarrow> Some (c - z))"

definition is_decimal :: "nat \<Rightarrow> bool" where
  "is_decimal c \<longleftrightarrow> decimal_value c \<noteq> None"

definition digit_of :: "nat \<Rightarrow> int" where
  "digit_of c = (case decimal_value c of None \<Rightarrow> 0 | Some d \<Rightarrow> int d)"

text \<open>
  \<open>int(s)\<close>, which raises ValueError (here \<open>None\<close>) or returns an unbounded integer.
  The program calls it only on non-empty strings of decimal digits. On these it raises
  when the string has more digits than \<open>sys.get_int_max_str_digits()\<close>, which is 4300
  unless the interpreter is configured otherwise, and leading zeros count. On any other
  string the model reports the ValueError, since signs, underscores and surrounding
  blanks never reach it.
\<close>

definition int_max_str_digits :: nat where
  "int_max_str_digits = 4300"

definition decimal_number :: "ustr \<Rightarrow> int" where
  "decimal_number s = foldl (\<lambda>a c. 10 * a + digit_of c) 0 s"

definition py_int :: "ustr \<Rightarrow> int option" where
  "py_int s =
     (if s \<noteq> [] \<and> list_all is_decimal s \<and> length s \<le> int_max_str_digits
      then Some (decimal_number s)
      else None)"

text \<open>\<open>needle in s\<close> on strings: \<open>needle\<close> occurs as a contiguous block.\<close>

fun starts_with :: "ustr \<Rightarrow> ustr \<Rightarrow> bool" where
  "starts_with s [] = True"
| "starts_with [] (p # ps) = False"
| "starts_with (c # cs) (p # ps) = (c = p \<and> starts_with cs ps)"

fun str_contains :: "ustr \<Rightarrow> ustr \<Rightarrow> bool" where
  "str_contains [] needle = (needle = [])"
| "str_contains (c # cs) needle = (starts_with (c # cs) needle \<or> str_contains cs needle)"

text \<open>
  \<open>str.upper()\<close>. ASCII letters are mapped exactly. \<open>upper_special\<close> lists every
  code point above 127 whose upper case contains an ASCII character, with its full
  mapping. Every other code point is left as it is: Python maps it to code points above
  127, so the search for an ASCII word in the result is the same.
\<close>

definition upper_special :: "(nat \<times> nat list) list" where
  "upper_special =
     [(223, [83, 83]), (305, [73]), (329, [700, 78]), (383, [83]), (496, [74, 780]),
      (7830, [72, 817]), (7831, [84, 776]), (7832, [87, 778]), (7833, [89, 778]),
      (7834, [65, 702]), (64256, [70, 70]), (64257, [70, 73]), (64258, [70, 76]),
      (64259, [70, 70, 73]), (64260, [70, 70, 76]), (64261, [83, 84]), (64262, [83, 84])]"

definition upper_cp :: "nat \<Rightarrow> nat list" where
  "upper_cp c =
     (if 97 \<le> c \<and> c \<le> 122 then [c - 32]
      else case map_of upper_special c of Some u \<Rightarrow> u | None \<Rightarrow> [c])"

definition upper :: "ustr \<Rightarrow> ustr" where
  "upper s = concat (map upper_cp s)"

text \<open>\<open>str.strip()\<close> removes the whitespace at both ends.\<close>

definition strip :: "ustr \<Rightarrow> ustr" where
  "strip s = rev (dropWhile is_space (rev (dropWhile is_space s)))"

text \<open>\<open>re.sub(r"\s+", " ", text)\<close>: every maximal run of whitespace becomes one space.\<close>

function collapse_ws :: "ustr \<Rightarrow> ustr" where
  "collapse_ws [] = []"
| "collapse_ws (c # cs) =
     (if is_space c then 32 # collapse_ws (dropWhile is_space cs) else c # collapse_ws cs)"
  by pat_completeness auto
termination
  by (relation "measure length") (auto simp: less_Suc_eq_le length_dropWhile_le)

text \<open>\<open>re.findall(r"\d+", s)\<close>: the maximal runs of decimal digits, left to right.\<close>

function findall_digits :: "ustr \<Rightarrow> ustr list" where
  "findall_digits [] = []"
| "findall_digits (c # cs) =
     (if is_decimal c
      then (c # takeWhile is_decimal cs) # findall_digits (dropWhile is_decimal cs)
      else findall_digits cs)"
  by pat_completeness auto
termination
  by (relation "measure length") (auto simp: less_Suc_eq_le length_dropWhile_le)

text \<open>
  \<open>re.search\<close> for the two patterns of \<open>parse_power\<close>, which have the shape
  \<open>(\d+)\s*\<close> followed by two literal characters. A greedy repetition of a class
  offers the engine the prefixes it can take, the longest first and then the shorter ones
  down to the minimum; \<open>greedy_splits\<close> lists them in that order, each with the rest of
  the text. \<open>match_power\<close> is a match attempt at the start of the text and returns
  group 1; \<open>re_search_power\<close> tries every start position from left to right.
\<close>

definition greedy_splits :: "(nat \<Rightarrow> bool) \<Rightarrow> nat \<Rightarrow> ustr \<Rightarrow> (ustr \<times> ustr) list" where
  "greedy_splits P lo s =
     map (\<lambda>n. (take n s, drop n s)) (rev [lo ..< Suc (length (takeWhile P s))])"

definition match_power :: "(ustr \<Rightarrow> bool) \<Rightarrow> ustr \<Rightarrow> ustr option" where
  "match_power unit s =
     map_option fst
       (find (\<lambda>(ds, r). list_ex (\<lambda>(ws, r'). unit r') (greedy_splits is_space 0 r))
          (greedy_splits is_decimal 1 s))"

fun re_search_power :: "(ustr \<Rightarrow> bool) \<Rightarrow> ustr \<Rightarrow> ustr option" where
  "re_search_power unit [] = match_power unit []"
| "re_search_power unit (c # cs) =
     (case match_power unit (c # cs) of
        Some g \<Rightarrow> Some g
      | None \<Rightarrow> re_search_power unit cs)"

text \<open>
  The literal \<open>kW\<close> is matched as written. Under \<open>re.IGNORECASE\<close> the literal
  \<open>hp\<close> matches \<open>h\<close> or \<open>H\<close> followed by \<open>p\<close> or \<open>P\<close>; no other code
  point folds to these two letters.
\<close>

definition unit_kW :: "ustr \<Rightarrow> bool" where
  "unit_kW r = starts_with r (ustr ''kW'')"

definition unit_hp :: "ustr \<Rightarrow> bool" where
  "unit_hp r =
     (case r of
        h # p # _ \<Rightarrow> (h = 104 \<or> h = 72) \<and> (p = 112 \<or> p = 80)
      | _ \<Rightarrow> False)"

text \<open>\<open>re.split(r"[;,]", s)\<close>: the pieces between the separators, empty ones included.\<close>

fun split_seps :: "ustr \<Rightarrow> ustr list" where
  "split_seps [] = [[]]"
| "split_seps (c # cs) =
     (if c = 59 \<or> c = 44 then [] # split_seps cs
      else case split_seps cs of [] \<Rightarrow> [[c]] | p # ps \<Rightarrow> (c # p) # ps)"

subsection \<open>Untyped values and dictionaries\<close>

text \<open>
  The values a listing dictionary holds: \<open>None\<close>, a string, an integer or a list.
  A dictionary is a map from field names to values; \<open>d.get(k)\<close> is \<open>None\<close> for a
  missing key.
\<close>

datatype pyval = PNone | PStr ustr | PInt int | PList "pyval list"

type_synonym pydict = "string \<rightharpoonup> pyval"

definition dict_get :: "pydict \<Rightarrow> string \<Rightarrow> pyval" where
  "dict_get d k = (case d k of None \<Rightarrow> PNone | Some v \<Rightarrow> v)"

text \<open>Truth value of a Python value, as \<open>if v\<close> and \<open>v or w\<close> test it.\<close>

fun truthy :: "pyval \<Rightarrow> bool" where
  "truthy PNone = False"
| "truthy (PStr s) = (s \<noteq> [])"
| "truthy (PInt i) = (i \<noteq> 0)"
| "truthy (PList xs) = (xs \<noteq> [])"

fun of_opt :: "ustr option \<Rightarrow> pyval" where
  "of_opt None = PNone"
| "of_opt (Some s) = PStr s"

text \<open>
  \<open>str(v)\<close> is the identity on a string. What it prints for any other value (the
  \<open>repr\<close> of a list, say) belongs to the interpreter and is the parameter \<open>repr\<close> of
  the model; every result below holds for all of them.
\<close>

definition py_str :: "(pyval \<Rightarrow> ustr) \<Rightarrow> pyval \<Rightarrow> ustr" where
  "py_str repr v = (case v of PStr s \<Rightarrow> s | _ \<Rightarrow> repr v)"

section \<open>The normalizer (utils/data\_cleaner.py)\<close>

text \<open>
  \<open>clean_text\<close>: \<open>None\<close> stays \<open>None\<close>; otherwise the text is stripped, its whitespace
  runs are collapsed, and an empty result becomes \<open>None\<close> (\<open>text or None\<close>).
\<close>

definition clean_text :: "(pyval \<Rightarrow> ustr) \<Rightarrow> pyval \<Rightarrow> ustr option" where
  "clean_text repr v =
     (case v of
        PNone \<Rightarrow> None
      | _ \<Rightarrow> (let text = strip (py_str repr v);
                text = collapse_ws text
            in if text = [] then None else Some text))"

text \<open>
  \<open>extract_number\<close>: \<open>None\<close> for a missing or empty text; otherwise the digit runs
  of the text without its dots and blanks are joined and read as one integer.
\<close>

definition extract_number :: "ustr option \<Rightarrow> int option" where
  "extract_number v =
     (case v of
        None \<Rightarrow> None
      | Some s \<Rightarrow>
          if s = [] then None
          else (let digits = findall_digits (filter (\<lambda>c. c \<noteq> 32) (filter (\<lambda>c. c \<noteq> 46) s))
                in if digits = [] then None else py_int (concat digits)))"

text \<open>
  \<open>parse_price\<close> returns the pair (price, currency). The currency is decided on the
  stripped text by the \<open>if\<close>/\<open>elif\<close> chain of the source; the price is read from the
  characters that \<open>[^\d]\<close> does not delete.
\<close>

definition detect_currency :: "ustr \<Rightarrow> ustr option" where
  "detect_currency s =
     (if euro_sign \<in> set s \<or> str_contains (upper s) (ustr ''EUR'') then Some (ustr ''EUR'')
      else if 36 \<in> set s \<or> str_contains (upper s) (ustr ''USD'') then Some (ustr ''USD'')
      else if str_contains (upper s) (ustr ''CHF'') then Some (ustr ''CHF'')
      else None)"

definition parse_price :: "ustr option \<Rightarrow> int option \<times> ustr option" where
  "parse_price price_str =
     (case price_str of
        None \<Rightarrow> (None, None)
      | Some p \<Rightarrow>
          if p = [] then (None, None)
          else (let s = strip p;
                    currency = detect_currency s;
                    raw_digits = filter is_decimal s
                in if raw_digits = [] then (None, currency)
                   else (case py_int raw_digits of
                           None \<Rightarrow> (None, currency)
                         | Some price_int \<Rightarrow> (Some price_int, currency))))"

definition parse_mileage :: "ustr option \<Rightarrow> int option" where
  "parse_mileage mileage_str = extract_number mileage_str"

text \<open>
  What a cleaned text looks like: it is not empty, it neither starts nor ends with
  whitespace, and each whitespace character in it is a single space (code point 32)
  followed by a character that is not whitespace.
\<close>

fun no_ws_run :: "ustr \<Rightarrow> bool" where
  "no_ws_run [] = True"
| "no_ws_run (c # cs) =
     ((if is_space c then c = 32 \<and> (case cs of [] \<Rightarrow> True | d # _ \<Rightarrow> \<not> is_space d) else True)
      \<and> no_ws_run cs)"

definition tidy :: "ustr \<Rightarrow> bool" where
  "tidy s \<longleftrightarrow> s \<noteq> [] \<and> \<not> is_space (hd s) \<and> \<not> is_space (last s) \<and> no_ws_run s"

text \<open>
  \<open>parse_power\<close> returns the pair (kW, hp): each pattern is searched on its own in the
  whole text, and group 1 of a match is read as an integer.
\<close>

definition parse_power :: "ustr option \<Rightarrow> int option \<times> int option" where
  "parse_power power_str =
     (case power_str of
        None \<Rightarrow> (None, None)
      | Some s \<Rightarrow>
          if s = [] then (None, None)
          else (let kw_match = re_search_power unit_kW s;
                    hp_match = re_search_power unit_hp s;
                    kW = (case kw_match of None \<Rightarrow> None | Some g \<Rightarrow> py_int g);
                    hp = (case hp_match of None \<Rightarrow> None | Some g \<Rightarrow> py_int g)
                in (kW, hp)))"

subsection \<open>What the specification says about prices and power\<close>

text \<open>
  The currency by precedence, in the words of the specification: the euro sign or the
  word EUR, else the dollar sign or the word USD, else the word CHF, else nothing. A code
  word counts in any mix of upper and lower case.
\<close>

definition has_word :: "ustr \<Rightarrow> ustr \<Rightarrow> bool" where
  "has_word s w \<longleftrightarrow> (\<exists>u v. upper s = u @ w @ v)"

definition currency_by_precedence :: "ustr \<Rightarrow> ustr option" where
  "currency_by_precedence s =
     (if euro_sign \<in> set s \<or> has_word s (ustr ''EUR'') then Some (ustr ''EUR'')
      else if 36 \<in> set s \<or> has_word s (ustr ''USD'') then Some (ustr ''USD'')
      else if has_word s (ustr ''CHF'') then Some (ustr ''CHF'')
      else None)"

text \<open>
  The number that the decimal digits of a text write, when there are digits and no more
  of them than \<open>int\<close> converts.
\<close>

definition number_of_digits :: "ustr \<Rightarrow> int option" where
  "number_of_digits s =
     (let ds = filter is_decimal s
      in if ds = [] \<or> int_max_str_digits < length ds then None
         else Some (decimal_number ds))"

text \<open>
  An occurrence of a power pattern in a text \<open>s\<close> after the prefix \<open>pre\<close>: digits
  \<open>ds\<close>, then any whitespace, then the unit.
\<close>

definition kw_occurrence :: "ustr \<Rightarrow> ustr \<Rightarrow> ustr \<Rightarrow> bool" where
  "kw_occurrence s pre ds \<longleftrightarrow>
     (\<exists>ws post. s = pre @ ds @ ws @ ustr ''kW'' @ post \<and> ds \<noteq> [] \<and>
        list_all is_decimal ds \<and> list_all is_space ws)"

definition hp_occurrence :: "ustr \<Rightarrow> ustr \<Rightarrow> ustr \<Rightarrow> bool" where
  "hp_occurrence s pre ds \<longleftrightarrow>
     (\<exists>ws h p post. s = pre @ ds @ ws @ [h, p] @ post \<and> ds \<noteq> [] \<and>
        list_all is_decimal ds \<and> list_all is_space ws \<and>
        (h = 104 \<or> h = 72) \<and> (p = 112 \<or> p = 80))"

definition unit_occurrence :: "(ustr \<Rightarrow> bool) \<Rightarrow> ustr \<Rightarrow> ustr \<Rightarrow> ustr \<Rightarrow> bool" where
  "unit_occurrence unit s pre ds \<longleftrightarrow>
     (\<exists>ws rest. s = pre @ ds @ ws @ rest \<and> ds \<noteq> [] \<and>
        list_all is_decimal ds \<and> list_all is_space ws \<and> unit rest)"

text \<open>The leftmost occurrence: no occurrence starts after a shorter prefix.\<close>

definition kw_first :: "ustr \<Rightarrow> ustr \<Rightarrow> ustr \<Rightarrow> bool" where
  "kw_first s pre ds \<longleftrightarrow>
     kw_occurrence s pre ds \<and>
     (\<forall>pre' ds'. kw_occurrence s pre' ds' \<longrightarrow> length pre \<le> length pre')"

definition hp_first :: "ustr \<Rightarrow> ustr \<Rightarrow> ustr \<Rightarrow> bool" where
  "hp_first s pre ds \<longleftrightarrow>
     hp_occurrence s pre ds \<and>
     (\<forall>pre' ds'. hp_occurrence s pre' ds' \<longrightarrow> length pre \<le> length pre')"

definition unit_first :: "(ustr \<Rightarrow> bool) \<Rightarrow> ustr \<Rightarrow> ustr \<Rightarrow> ustr \<Rightarrow> bool" where
  "unit_first unit s pre ds \<longleftrightarrow>
     unit_occurrence unit s pre ds \<and>
     (\<forall>pre' ds'. unit_occurrence unit s pre' ds' \<longrightarrow> length pre \<le> length pre')"

subsection \<open>normalize\_listing\<close>

text \<open>
  The function works on a copy of the listing and rewrites it in stages; each stage of
  the source is one definition here, and \<open>normalize_listing\<close> runs them in the order
  of the source.
\<close>

definition text_keys :: "string list" where
  "text_keys =
     [''title'', ''url'', ''mark'', ''model'', ''modelVersion'', ''location'', ''dealerName'',
      ''dealerRatings'', ''price'', ''milage'', ''gearbox'', ''firstRegistration'',
      ''fuelType'', ''power'', ''seller'', ''contactName'', ''contactPhone'', ''bodyType'',
      ''drivetrain'', ''seats'', ''engineSize'', ''gears'', ''emissionClass'', ''colour'',
      ''manufacturerColour'', ''productionDate'']"

text \<open>\<open>listing[key] = clean_text(listing.get(key))\<close>\<close>

definition clean_field :: "(pyval \<Rightarrow> ustr) \<Rightarrow> string \<Rightarrow> pydict \<Rightarrow> pydict" where
  "clean_field repr key listing = listing(key \<mapsto> of_opt (clean_text repr (dict_get listing key)))"

text \<open>
  The parsers take an optional string. They are called on fields that \<open>clean_text\<close>
  has just written, which hold \<open>None\<close> or a string.
\<close>

fun text_of :: "pyval \<Rightarrow> ustr option" where
  "text_of (PStr s) = Some s"
| "text_of v = None"

text \<open>\<open>if v is not None: listing[key] = v\<close>\<close>

definition set_if_some :: "string \<Rightarrow> pyval option \<Rightarrow> pydict \<Rightarrow> pydict" where
  "set_if_some key v listing = (case v of None \<Rightarrow> listing | Some x \<Rightarrow> listing(key \<mapsto> x))"

definition price_fields :: "pydict \<Rightarrow> pydict" where
  "price_fields listing =
     (case parse_price (text_of (dict_get listing ''price'')) of
        (raw_price, currency) \<Rightarrow>
          set_if_some ''currency'' (map_option PStr currency)
            (set_if_some ''rawPrice'' (map_option PInt raw_price) listing))"

definition mileage_field :: "pydict \<Rightarrow> pydict" where
  "mileage_field listing =
     (let mileage_km = parse_mileage (text_of (dict_get listing ''milage''))
      in set_if_some ''mileageKm'' (map_option PInt mileage_km) listing)"

definition power_fields :: "pydict \<Rightarrow> pydict" where
  "power_fields listing =
     (case parse_power (text_of (dict_get listing ''power'')) of
        (kW, hp) \<Rightarrow>
          set_if_some ''powerHP'' (map_option PInt hp)
            (set_if_some ''powerKW'' (map_option PInt kW) listing))"

definition number_pairs :: "(string \<times> string) list" where
  "number_pairs =
     [(''seats'', ''seatsNum''), (''engineSize'', ''engineSizeCC''), (''gears'', ''gearsNum'')]"

definition number_field :: "string \<times> string \<Rightarrow> pydict \<Rightarrow> pydict" where
  "number_field p listing =
     (case p of
        (src, dest) \<Rightarrow>
          (let val = extract_number (text_of (dict_get listing src))
           in set_if_some dest (map_option PInt val) listing))"

definition feature_keys :: "string list" where
  "feature_keys = [''comfort'', ''media'', ''safety'', ''extras'']"

text \<open>
  A feature field: a list is cleaned element by element, a string is split at \<open>;\<close>
  and \<open>,\<close> and its pieces are cleaned, \<open>None\<close> becomes the empty list, and any other
  value is printed, cleaned and wrapped in a list. Elements that clean to \<open>None\<close> are
  left out of the first two.
\<close>

definition feature_value :: "(pyval \<Rightarrow> ustr) \<Rightarrow> pyval \<Rightarrow> pyval" where
  "feature_value repr value =
     (case value of
        PList vs \<Rightarrow> PList (map PStr (List.map_filter (clean_text repr) vs))
      | PStr s \<Rightarrow>
          PList (map PStr (List.map_filter (\<lambda>p. clean_text repr (PStr p)) (split_seps s)))
      | PNone \<Rightarrow> PList []
      | _ \<Rightarrow> PList [of_opt (clean_text repr (PStr (py_str repr value)))])"

definition feature_field :: "(pyval \<Rightarrow> ustr) \<Rightarrow> string \<Rightarrow> pydict \<Rightarrow> pydict" where
  "feature_field repr feature_key listing =
     (let value = dict_get listing feature_key
      in listing(feature_key \<mapsto> feature_value repr value))"

text \<open>
  The image loop keeps the set \<open>seen\<close> and appends to \<open>normalized\<close> each cleaned
  image that is not in it.
\<close>

fun dedupe_images :: "(pyval \<Rightarrow> ustr) \<Rightarrow> pyval list \<Rightarrow> ustr set \<Rightarrow> ustr list \<Rightarrow> ustr list" where
  "dedupe_images repr [] seen normalized = normalized"
| "dedupe_images repr (img # images) seen normalized =
     (case clean_text repr img of
        None \<Rightarrow> dedupe_images repr images seen normalized
      | Some i \<Rightarrow>
          if i \<notin> seen then dedupe_images repr images (insert i seen) (normalized @ [i])
          else dedupe_images repr images seen normalized)"

definition images_value :: "(pyval \<Rightarrow> ustr) \<Rightarrow> pyval \<Rightarrow> pyval" where
  "images_value repr v =
     (let images = (if truthy v then v else PList []);
          images = (case images of PStr s \<Rightarrow> PList [images] | _ \<Rightarrow> images)
      in case images of
           PList imgs \<Rightarrow> PList (map PStr (dedupe_images repr imgs {} []))
         | _ \<Rightarrow> PList [])"

definition normalize_images :: "(pyval \<Rightarrow> ustr) \<Rightarrow> pydict \<Rightarrow> pydict" where
  "normalize_images repr listing =
     listing(''images'' \<mapsto> images_value repr (dict_get listing ''images''))"

definition normalize_listing :: "(pyval \<Rightarrow> ustr) \<Rightarrow> pydict \<Rightarrow> pydict" where
  "normalize_listing repr listing =
     normalize_images repr
       (fold (feature_field repr) feature_keys
          (fold number_field number_pairs
             (power_fields (mileage_field (price_fields
                (fold (clean_field repr) text_keys listing))))))"

text \<open>The keys that the stages after the text cleanup write.\<close>

definition written_keys :: "string list" where
  "written_keys =
     [''rawPrice'', ''currency'', ''mileageKm'', ''powerKW'', ''powerHP'', ''seatsNum'',
      ''engineSizeCC'', ''gearsNum'', ''comfort'', ''media'', ''safety'', ''extras'', ''images'']"

text \<open>
  A raw record is what \<open>parse_listing_page\<close> returns: its keys are the text fields, the
  four feature lists and the images.
\<close>

definition raw_keys :: "string list" where
  "raw_keys = text_keys @ feature_keys @ [''images'']"

text \<open>The first occurrence of every element, in the order of the list.\<close>

primrec keep_first :: "'a list \<Rightarrow> 'a list" where
  "keep_first [] = []"
| "keep_first (x # xs) = x # removeAll x (keep_first xs)"

text \<open>A raw record with a few fields filled in, for the examples below.\<close>

definition example_raw :: pydict where
  "example_raw =
     [''title'' \<mapsto> PStr (ustr ''  BMW   X5 ''),
      ''price'' \<mapsto> PStr (euro_sign # ustr '' 31,980''),
      ''power'' \<mapsto> PStr (ustr ''240 kW (326 hp)''),
      ''seats'' \<mapsto> PStr (ustr ''five''),
      ''comfort'' \<mapsto> PStr (ustr ''ABS; Airbag,Cruise control''),
      ''media'' \<mapsto> PList [PStr (ustr ''Radio''), PStr (ustr ''Radio''), PStr (ustr '' '')],
      ''images'' \<mapsto> PList [PStr (ustr ''a.jpg''), PStr (ustr ''a.jpg''), PStr (ustr ''b.jpg'')]]"

section \<open>The dealer summary (extractors/dealer\_extractor.py)\<close>

text \<open>
  An entry of the summary is a dictionary with four fixed keys, modelled as a record.
  The summary maps dealer names to entries; \<open>counter\<close> is a \<open>defaultdict(int)\<close>,
  a total function that is 0 where nothing was counted.
\<close>

record dealer_entry =
  dealerName :: ustr
  location :: pyval
  dealerRatings :: pyval
  listingCount :: int

datatype error = AttributeError

type_synonym summary_state = "(ustr \<rightharpoonup> dealer_entry) \<times> (ustr \<Rightarrow> int)"

text \<open>
  \<open>(rec.get("dealerName") or "").strip()\<close>, replaced by \<open>"Unknown dealer"\<close> when it is
  empty. Only a string has \<open>strip\<close>: any other value that counts as true raises
  AttributeError.
\<close>

definition dealer_name_of :: "pydict \<Rightarrow> error + ustr" where
  "dealer_name_of rec =
     (let v = dict_get rec ''dealerName'';
          v = (if truthy v then v else PStr [])
      in case v of
           PStr s \<Rightarrow>
             (let dealer_name = strip s
              in Inr (if dealer_name = [] then ustr ''Unknown dealer'' else dealer_name))
         | _ \<Rightarrow> Inl AttributeError)"

text \<open>
  One round of the loop. \<open>setdefault\<close> stores the new entry only when the name has
  none yet and returns the entry that the summary then holds; the assignment to
  \<open>listingCount\<close> changes that entry inside the summary.
\<close>

definition summary_step :: "pydict \<Rightarrow> summary_state \<Rightarrow> error + summary_state" where
  "summary_step rec st =
     (case st of
        (summary, counter) \<Rightarrow>
          (case dealer_name_of rec of
             Inl e \<Rightarrow> Inl e
           | Inr dealer_name \<Rightarrow>
               (let counter = counter(dealer_name := counter dealer_name + 1);
                    dealer_entry =
                      (case summary dealer_name of
                         None \<Rightarrow>
                           \<lparr>dealerName = dealer_name,
                            location = dict_get rec ''location'',
                            dealerRatings = dict_get rec ''dealerRatings'',
                            listingCount = 0\<rparr>
                       | Some e \<Rightarrow> e);
                    summary =
                      summary(dealer_name \<mapsto> dealer_entry\<lparr>listingCount := counter dealer_name\<rparr>)
                in Inr (summary, counter))))"

fun build_loop :: "pydict list \<Rightarrow> summary_state \<Rightarrow> error + summary_state" where
  "build_loop [] st = Inr st"
| "build_loop (rec # listings) st =
     (case summary_step rec st of
        Inl e \<Rightarrow> Inl e
      | Inr st' \<Rightarrow> build_loop listings st')"

definition build_summary :: "pydict list \<Rightarrow> error + (ustr \<rightharpoonup> dealer_entry)" where
  "build_summary listings =
     (case build_loop listings (Map.empty, \<lambda>_. 0) of
        Inl e \<Rightarrow> Inl e
      | Inr st \<Rightarrow> Inr (fst st))"

text \<open>The entry of a dealer in a result, \<open>None\<close> when there is none or the call raised.\<close>

definition summary_lookup :: "error + (ustr \<rightharpoonup> dealer_entry) \<Rightarrow> ustr \<Rightarrow> dealer_entry option" where
  "summary_lookup res d = (case res of Inl e \<Rightarrow> None | Inr summary \<Rightarrow> summary d)"

text \<open>
  The entry that the records of one dealer give, as the code builds it: the fields of
  the first of them and their number.
\<close>

definition entry_of :: "ustr \<Rightarrow> pydict list \<Rightarrow> dealer_entry option" where
  "entry_of d recs =
     (case recs of
        [] \<Rightarrow> None
      | r # rs \<Rightarrow>
          Some \<lparr>dealerName = d,
                location = dict_get r ''location'',
                dealerRatings = dict_get r ''dealerRatings'',
                listingCount = int (length recs)\<rparr>)"

text \<open>
  The loop invariant: after the records \<open>pre\<close>, the counter of a name is the number
  of its records and the summary holds the entry they give.
\<close>

definition summary_inv :: "pydict list \<Rightarrow> summary_state \<Rightarrow> bool" where
  "summary_inv pre st \<longleftrightarrow>
     (\<forall>d. snd st d = int (length (filter (\<lambda>r. dealer_name_of r = Inr d) pre)) \<and>
          fst st d = entry_of d (filter (\<lambda>r. dealer_name_of r = Inr d) pre))"

text \<open>Records for the examples: two of dealer A in different places, one without a name.\<close>

definition rec_A_berlin :: pydict where
  "rec_A_berlin = [''dealerName'' \<mapsto> PStr (ustr ''A''), ''location'' \<mapsto> PStr (ustr ''Berlin'')]"

definition rec_A_bonn :: pydict where
  "rec_A_bonn = [''dealerName'' \<mapsto> PStr (ustr '' A ''), ''location'' \<mapsto> PStr (ustr ''Bonn'')]"

definition rec_blank :: pydict where
  "rec_blank = [''dealerName'' \<mapsto> PStr []]"

section \<open>The listing extractor (extractors/listing\_extractor.py)\<close>

subsection \<open>The outside world\<close>

text \<open>
  What the extractor gets from outside is a parameter of the model:
  \<^item> \<open>fetch url\<close> is the result of \<open>_fetch_url\<close>: the body of the response, or
    \<open>None\<close> when the request failed and the failure was logged;
  \<^item> \<open>parse_search_page html base_url\<close> is the parser's reading of a search page: the
    detail URLs on it and the link to the next page, if any, or the exception that the
    parser raised (\<open>urljoin\<close> raises ValueError on a malformed link);
  \<^item> \<open>parse_listing_page html url\<close> is the raw record of a detail page, or the
    exception that the parser raised;
  \<^item> \<open>url_path url\<close> is \<open>urlparse(url).path\<close>, or the ValueError that
    \<open>urlparse\<close> raises on a malformed URL;
  \<^item> \<open>str_of\<close> is \<open>str\<close> on values that are not strings.
  Each call of \<open>_fetch_url\<close> is an effect; the functions below record the URLs they
  fetch, in order, in a trace. Their result is the pair of an outcome and the trace; the
  outcome is the returned value, or the exception that was raised and that the function
  does not catch.
\<close>

datatype exn = Exn ustr

record crawl_env =
  fetch :: "ustr \<Rightarrow> ustr option"
  parse_search_page :: "ustr \<Rightarrow> ustr \<Rightarrow> exn + (ustr list \<times> ustr option)"
  parse_listing_page :: "ustr \<Rightarrow> ustr \<Rightarrow> exn + pydict"
  url_path :: "ustr \<Rightarrow> exn + ustr"
  str_of :: "pyval \<Rightarrow> ustr"

text \<open>
  \<open>str.lower()\<close>, in the way of \<open>upper\<close>: exact on ASCII, with the two code points
  above 127 whose lower case contains an ASCII letter.
\<close>

definition lower_cp :: "nat \<Rightarrow> nat list" where
  "lower_cp c =
     (if 65 \<le> c \<and> c \<le> 90 then [c + 32]
      else if c = 304 then [105, 775]
      else if c = 8490 then [107]
      else [c])"

definition lower :: "ustr \<Rightarrow> ustr" where
  "lower s = concat (map lower_cp s)"

definition is_detail_url :: "crawl_env \<Rightarrow> ustr \<Rightarrow> exn + bool" where
  "is_detail_url env url =
     (case url_path env url of
        Inl e \<Rightarrow> Inl e
      | Inr p \<Rightarrow>
          (let path = lower p
           in Inr (str_contains path (ustr ''/angebote/'') \<or> str_contains path (ustr ''/offers/''))))"

text \<open>\<open>for u in urls: if u not in listing_urls: listing_urls.append(u)\<close>\<close>

fun append_new :: "'a list \<Rightarrow> 'a list \<Rightarrow> 'a list" where
  "append_new listing_urls [] = listing_urls"
| "append_new listing_urls (u # urls) =
     append_new (if u \<in> set listing_urls then listing_urls else listing_urls @ [u]) urls"

text \<open>\<open>xs[:n]\<close> for an integer \<open>n\<close>; a negative \<open>n\<close> counts from the end.\<close>

definition py_slice_to :: "int \<Rightarrow> 'a list \<Rightarrow> 'a list" where
  "py_slice_to n xs = (if 0 \<le> n then take (nat n) xs else take (length xs - nat (- n)) xs)"

subsection \<open>Expanding a search URL\<close>

text \<open>
  The \<open>while\<close> loop of \<open>_collect_listing_urls_from_search\<close>. Its state is the list
  of detail URLs, the set of visited pages, the next page and the trace. Nothing bounds
  the number of rounds, so the loop is a partial function: \<open>None\<close> means that it never
  returns. An exception of the parser leaves the loop and the function.
\<close>

partial_function (option) search_loop ::
  "crawl_env \<Rightarrow> int \<Rightarrow> ustr list \<Rightarrow> ustr set \<Rightarrow> ustr option \<Rightarrow> ustr list \<Rightarrow>
   ((exn + ustr list) \<times> ustr list) option" where
  "search_loop env max_records listing_urls visited_pages next_url trace =
     (case next_url of
        None \<Rightarrow> Some (Inr listing_urls, trace)
      | Some url \<Rightarrow>
          if url = [] \<or> \<not> int (length listing_urls) < max_records
          then Some (Inr listing_urls, trace)
          else if url \<in> visited_pages then Some (Inr listing_urls, trace)
          else
            (case fetch env url of
               None \<Rightarrow> Some (Inr listing_urls, trace @ [url])
             | Some html \<Rightarrow>
                 if html = [] then Some (Inr listing_urls, trace @ [url])
                 else
                   (case parse_search_page env html url of
                      Inl e \<Rightarrow> Some (Inl e, trace @ [url])
                    | Inr (page_urls, next_url') \<Rightarrow>
                        if next_url' = None \<or> next_url' = Some []
                        then Some (Inr (append_new listing_urls page_urls), trace @ [url])
                        else search_loop env max_records (append_new listing_urls page_urls)
                               (insert url visited_pages) next_url' (trace @ [url]))))"

definition collect_listing_urls_from_search ::
  "crawl_env \<Rightarrow> int \<Rightarrow> ustr \<Rightarrow> ustr list \<Rightarrow> ((exn + ustr list) \<times> ustr list) option" where
  "collect_listing_urls_from_search env max_records start_url trace =
     search_loop env max_records [] {} (Some start_url) trace"

text \<open>
  The pages of a seed, for stating what the loop does. \<open>page_result\<close> is what the
  loop gets from a page that it fetches; \<open>page_offers\<close> are the detail URLs it takes
  from the page, \<open>next_page\<close> is the page it goes to afterwards, if any, and
  \<open>page_raises\<close> is the exception the parser raises on the page, if any.
  \<open>page_chain env seed k\<close> is the page that the chain of next links reaches after
  \<open>k\<close> steps, \<open>chain_pages env seed k\<close> are the first \<open>k\<close> pages of the chain, and
  \<open>collected env pages\<close> are the detail URLs of a list of pages in first-seen order.
\<close>

definition page_result :: "crawl_env \<Rightarrow> ustr \<Rightarrow> (exn + (ustr list \<times> ustr option)) option" where
  "page_result env url =
     (case fetch env url of
        None \<Rightarrow> None
      | Some html \<Rightarrow> if html = [] then None else Some (parse_search_page env html url))"

definition page_offers :: "crawl_env \<Rightarrow> ustr \<Rightarrow> ustr list" where
  "page_offers env url =
     (case page_result env url of
        Some (Inr (page_urls, next_url')) \<Rightarrow> page_urls
      | _ \<Rightarrow> [])"

definition next_page :: "crawl_env \<Rightarrow> ustr \<Rightarrow> ustr option" where
  "next_page env url =
     (case page_result env url of
        Some (Inr (page_urls, Some n)) \<Rightarrow> if n = [] then None else Some n
      | _ \<Rightarrow> None)"

definition page_raises :: "crawl_env \<Rightarrow> ustr \<Rightarrow> exn option" where
  "page_raises env url =
     (case page_result env url of
        Some (Inl e) \<Rightarrow> Some e
      | _ \<Rightarrow> None)"

fun page_chain :: "crawl_env \<Rightarrow> ustr \<Rightarrow> nat \<Rightarrow> ustr option" where
  "page_chain env seed 0 = (if seed = [] then None else Some seed)"
| "page_chain env seed (Suc k) =
     (case page_chain env seed k of
        None \<Rightarrow> None
      | Some url \<Rightarrow> next_page env url)"

fun chain_pages :: "crawl_env \<Rightarrow> ustr \<Rightarrow> nat \<Rightarrow> ustr list" where
  "chain_pages env seed 0 = []"
| "chain_pages env seed (Suc k) =
     (case page_chain env seed k of
        None \<Rightarrow> chain_pages env seed k
      | Some url \<Rightarrow> chain_pages env seed k @ [url])"

definition collected :: "crawl_env \<Rightarrow> ustr list \<Rightarrow> ustr list" where
  "collected env pages = foldl append_new [] (map (page_offers env) pages)"

text \<open>
  \<open>expansion_stops env max_records seed k\<close>: after \<open>k\<close> pages the chain of the
  seed has ended (the seed is empty, the last page could not be fetched, the parser
  raised on it or it names no next page), or it has come back to one of its earlier
  pages, or the \<open>k\<close> pages have yielded \<open>max_records\<close> detail URLs.
  \<open>expansion_outcome env pages\<close> is what the expansion hands back when \<open>pages\<close>
  are the pages it has fetched: the exception that the parser raised on the last one, or
  else the detail URLs of the pages.
\<close>

definition expansion_stops :: "crawl_env \<Rightarrow> int \<Rightarrow> ustr \<Rightarrow> nat \<Rightarrow> bool" where
  "expansion_stops env max_records seed k \<longleftrightarrow>
     page_chain env seed k = None \<or>
     (\<exists>i<k. page_chain env seed i = page_chain env seed k) \<or>
     max_records \<le> int (length (collected env (chain_pages env seed k)))"

definition expansion_outcome :: "crawl_env \<Rightarrow> ustr list \<Rightarrow> exn + ustr list" where
  "expansion_outcome env pages =
     (case (if pages = [] then None else page_raises env (last pages)) of
        Some e \<Rightarrow> Inl e
      | None \<Rightarrow> Inr (collected env pages))"

subsection \<open>Preparing the URL list\<close>

text \<open>
  The \<open>for\<close> loop of \<open>_prepare_listing_urls\<close>. An empty seed and a detail seed end
  their round with \<open>continue\<close>; only a search seed reaches the test that leaves the
  loop. An exception of \<open>urlparse\<close> or of the expansion leaves the function.
\<close>

fun prepare_loop ::
  "crawl_env \<Rightarrow> int \<Rightarrow> ustr list \<Rightarrow> ustr list \<Rightarrow> ustr list \<Rightarrow>
   ((exn + ustr list) \<times> ustr list) option" where
  "prepare_loop env max_records [] listing_urls trace = Some (Inr listing_urls, trace)"
| "prepare_loop env max_records (seed # start_urls) listing_urls trace =
     (let start_url = strip seed
      in if start_url = [] then prepare_loop env max_records start_urls listing_urls trace
         else
           (case is_detail_url env start_url of
              Inl e \<Rightarrow> Some (Inl e, trace)
            | Inr detail \<Rightarrow>
                if detail
                then prepare_loop env max_records start_urls
                       (if start_url \<in> set listing_urls then listing_urls
                        else listing_urls @ [start_url])
                       trace
                else
                  (case collect_listing_urls_from_search env max_records start_url trace of
                     None \<Rightarrow> None
                   | Some (Inl e, trace') \<Rightarrow> Some (Inl e, trace')
                   | Some (Inr urls, trace') \<Rightarrow>
                       (let listing_urls' = append_new listing_urls urls
                        in if max_records \<le> int (length listing_urls')
                           then Some (Inr listing_urls', trace')
                           else prepare_loop env max_records start_urls listing_urls' trace'))))"

definition prepare_listing_urls ::
  "crawl_env \<Rightarrow> int \<Rightarrow> ustr list \<Rightarrow> ((exn + ustr list) \<times> ustr list) option" where
  "prepare_listing_urls env max_records start_urls =
     (case prepare_loop env max_records start_urls [] [] of
        None \<Rightarrow> None
      | Some (Inl e, trace) \<Rightarrow> Some (Inl e, trace)
      | Some (Inr listing_urls, trace) \<Rightarrow>
          Some (Inr (if max_records < int (length listing_urls)
                     then py_slice_to max_records listing_urls else listing_urls),
                trace))"

text \<open>An environment in which neither the search-page parser nor \<open>urlparse\<close> raises.\<close>

definition never_raises :: "crawl_env \<Rightarrow> bool" where
  "never_raises env \<longleftrightarrow>
     (\<forall>html url. \<exists>r. parse_search_page env html url = Inr r) \<and>
     (\<forall>url. \<exists>p. url_path env url = Inr p)"

subsection \<open>Scraping the listings\<close>

text \<open>
  \<open>_scrape_single_listing\<close> is the task of one URL. It returns \<open>None\<close> when the
  fetch failed, the normalized record otherwise, and it raises what the parser raises.
\<close>

definition scrape_single_listing :: "crawl_env \<Rightarrow> ustr \<Rightarrow> exn + pydict option" where
  "scrape_single_listing env url =
     (case fetch env url of
        None \<Rightarrow> Inr None
      | Some html \<Rightarrow>
          if html = [] then Inr None
          else (case parse_listing_page env html url of
                  Inl e \<Rightarrow> Inl e
                | Inr raw_record \<Rightarrow> Inr (Some (normalize_listing (str_of env) raw_record))))"

text \<open>
  The loop over \<open>as_completed\<close>: \<open>completed\<close> lists the URLs in the order in which
  their tasks finish. A task that raised is logged and skipped; a result is appended when
  it counts as true, that is when it is a dictionary that is not empty.
\<close>

fun collect_results :: "crawl_env \<Rightarrow> ustr list \<Rightarrow> pydict list \<Rightarrow> pydict list" where
  "collect_results env [] results = results"
| "collect_results env (url # completed) results =
     (case scrape_single_listing env url of
        Inl exc \<Rightarrow> collect_results env completed results
      | Inr record \<Rightarrow>
          (case record of
             None \<Rightarrow> collect_results env completed results
           | Some r \<Rightarrow>
               if dom r \<noteq> {} then collect_results env completed (results @ [r])
               else collect_results env completed results))"

text \<open>
  \<open>scrape\<close>. The pool runs one task for each prepared URL; the order in which the tasks
  finish is not determined by the program and is the argument \<open>completed\<close>, a
  rearrangement of the prepared URLs. The result is \<open>None\<close> when the preparation never
  returns, and an exception when the preparation raised one.
\<close>

definition scrape ::
  "crawl_env \<Rightarrow> int \<Rightarrow> ustr list \<Rightarrow> ustr list \<Rightarrow> (exn + pydict list) option" where
  "scrape env max_records start_urls completed =
     (case prepare_listing_urls env max_records start_urls of
        None \<Rightarrow> None
      | Some (Inl e, trace) \<Rightarrow> Some (Inl e)
      | Some (Inr urls, trace) \<Rightarrow>
          if urls = [] then Some (Inr []) else Some (Inr (collect_results env completed [])))"

text \<open>The record that the task of an URL contributes, if it contributes one.\<close>

definition task_record :: "crawl_env \<Rightarrow> ustr \<Rightarrow> pydict option" where
  "task_record env url =
     (case scrape_single_listing env url of
        Inl exc \<Rightarrow> None
      | Inr record \<Rightarrow> record)"

subsection \<open>Example sites\<close>

text \<open>
  The path of an URL of the plain form \<open>scheme://host/path?query#fragment\<close>, which is
  what \<open>urlparse\<close> gives for it. It serves the examples only.
\<close>

definition http_path :: "ustr \<Rightarrow> ustr" where
  "http_path url =
     (let after_scheme = drop 3 (dropWhile (\<lambda>c. c \<noteq> 58) url);
          from_path = dropWhile (\<lambda>c. c \<noteq> 47 \<and> c \<noteq> 63 \<and> c \<noteq> 35) after_scheme
      in takeWhile (\<lambda>c. c \<noteq> 63 \<and> c \<noteq> 35) from_path)"

text \<open>
  A shop with two search pages, \<open>http://x/s\<close> and \<open>http://x/t\<close>; each lists the
  offers 2, 3 and 4 and has no next page.
\<close>

definition env_shop :: crawl_env where
  "env_shop =
     \<lparr>fetch = (\<lambda>u. if u = ustr ''http://x/s'' \<or> u = ustr ''http://x/t''
                   then Some (ustr ''<html>'') else None),
      parse_search_page =
        (\<lambda>html base. Inr ([ustr ''http://x/offers/2'', ustr ''http://x/offers/3'',
                             ustr ''http://x/offers/4''], None)),
      parse_listing_page = (\<lambda>html url. Inr [''url'' \<mapsto> PStr url]),
      url_path = (\<lambda>u. Inr (http_path u)),
      str_of = (\<lambda>v. [])\<rparr>"

text \<open>
  A site that answers every URL. The page \<open>http://x/a\<close> lists offer 1 and names
  \<open>http://x/b\<close> as the next page; every other page lists offer 2 and names
  \<open>http://x/a\<close>.
\<close>

definition env_cycle :: crawl_env where
  "env_cycle =
     \<lparr>fetch = (\<lambda>u. Some (ustr ''<html>'')),
      parse_search_page =
        (\<lambda>html base. if base = ustr ''http://x/a''
                       then Inr ([ustr ''http://x/offers/1''], Some (ustr ''http://x/b''))
                       else Inr ([ustr ''http://x/offers/2''], Some (ustr ''http://x/a''))),
      parse_listing_page = (\<lambda>html url. Inr [''url'' \<mapsto> PStr url]),
      url_path = (\<lambda>u. Inr (http_path u)),
      str_of = (\<lambda>v. [])\<rparr>"

text \<open>
  A site on which every page exists, lists no offer and names a longer URL as the next
  page.
\<close>

definition env_endless :: crawl_env where
  "env_endless =
     \<lparr>fetch = (\<lambda>u. Some (ustr ''<html>'')),
      parse_search_page = (\<lambda>html base. Inr ([], Some (base @ ustr ''+''))),
      parse_listing_page = (\<lambda>html url. Inr [''url'' \<mapsto> PStr url]),
      url_path = (\<lambda>u. Inr (http_path u)),
      str_of = (\<lambda>v. [])\<rparr>"

text \<open>Three detail pages; the second one cannot be fetched.\<close>

definition env_offers :: crawl_env where
  "env_offers =
     \<lparr>fetch = (\<lambda>u. if u = ustr ''http://x/offers/1'' \<or> u = ustr ''http://x/offers/3''
                   then Some (ustr ''<html>'') else None),
      parse_search_page = (\<lambda>html base. Inr ([], None)),
      parse_listing_page = (\<lambda>html url. Inr [''url'' \<mapsto> PStr url]),
      url_path = (\<lambda>u. Inr (http_path u)),
      str_of = (\<lambda>v. [])\<rparr>"

section \<open>Facts about the string operations\<close>

lemma is_decimal_low: "c < 1632 \<Longrightarrow> is_decimal c \<longleftrightarrow> 48 \<le> c \<and> c \<le> 57"
  by (auto simp: is_decimal_def decimal_value_def decimal_zeros_def)

lemma digit_of_low: "48 \<le> c \<Longrightarrow> c \<le> 57 \<Longrightarrow> digit_of c = int c - 48"
  by (auto simp: digit_of_def decimal_value_def decimal_zeros_def)

lemma is_decimal_euro: "\<not> is_decimal 8364"
  by (simp add: is_decimal_def decimal_value_def decimal_zeros_def)

lemma upper_cp_low: "c < 223 \<Longrightarrow> upper_cp c = (if 97 \<le> c \<and> c \<le> 122 then [c - 32] else [c])"
  by (auto simp: upper_cp_def upper_special_def)

lemma upper_cp_euro: "upper_cp 8364 = [8364]"
  by (simp add: upper_cp_def upper_special_def)

lemma last_dropWhile:
  "xs \<noteq> [] \<Longrightarrow> \<not> P (last xs) \<Longrightarrow> dropWhile P xs \<noteq> [] \<and> last (dropWhile P xs) = last xs"
  by (induction xs) (auto split: if_splits)

lemma dropWhile_id: "xs = [] \<or> \<not> P (hd xs) \<Longrightarrow> dropWhile P xs = xs"
  by (cases xs) auto

lemma strip_ends:
  "strip s = [] \<or> (\<not> is_space (hd (strip s)) \<and> \<not> is_space (last (strip s)))"
proof -
  let ?a = "dropWhile is_space s"
  let ?b = "dropWhile is_space (rev ?a)"
  have b: "?b = [] \<or> \<not> is_space (hd ?b)"
    using hd_dropWhile[of is_space "rev ?a"] by blast
  show ?thesis
  proof (cases "?b = []")
    case True
    then show ?thesis by (simp add: strip_def)
  next
    case False
    then have nb: "\<not> is_space (hd ?b)" using b by blast
    have a_ne: "?a \<noteq> []"
    proof
      assume h: "?a = []"
      show False using False unfolding h by simp
    qed
    then have ha: "\<not> is_space (hd ?a)" using hd_dropWhile[of is_space s] by blast
    have "last (strip s) = hd ?b" using False by (simp add: strip_def last_rev)
    moreover have "hd (strip s) = hd ?a"
    proof -
      have "\<not> is_space (last (rev ?a))" using ha a_ne by (simp add: last_rev)
      then have "last ?b = last (rev ?a)"
        using last_dropWhile[of "rev ?a" is_space] a_ne by simp
      then show ?thesis using False a_ne by (simp add: strip_def hd_rev last_rev)
    qed
    ultimately show ?thesis using nb ha by simp
  qed
qed

lemma collapse_ws_Nil_iff: "collapse_ws t = [] \<longleftrightarrow> t = []"
  by (cases t) auto

lemma collapse_ws_hd: "t \<noteq> [] \<Longrightarrow> \<not> is_space (hd t) \<Longrightarrow> hd (collapse_ws t) = hd t"
  by (cases t) auto

lemma collapse_ws_tail:
  "t \<noteq> [] \<Longrightarrow> \<not> is_space (last t) \<Longrightarrow>
   no_ws_run (collapse_ws t) \<and> last (collapse_ws t) = last t"
proof (induction t rule: collapse_ws.induct)
  case 1
  then show ?case by simp
next
  case (2 c cs)
  show ?case
  proof (cases "is_space c")
    case True
    then have cs: "cs \<noteq> []" using "2.prems"(2) by auto
    then have l: "\<not> is_space (last cs)" using "2.prems"(2) by simp
    let ?d = "dropWhile is_space cs"
    have d: "?d \<noteq> [] \<and> last ?d = last cs"
      using last_dropWhile[of cs is_space] cs l by blast
    then have ih: "no_ws_run (collapse_ws ?d) \<and> last (collapse_ws ?d) = last ?d"
      using 2(1)[OF True] l by simp
    have hd: "\<not> is_space (hd ?d)" using d hd_dropWhile[of is_space cs] by blast
    then have "hd (collapse_ws ?d) = hd ?d" using d collapse_ws_hd by blast
    moreover have "collapse_ws ?d \<noteq> []" using d by (simp add: collapse_ws_Nil_iff)
    ultimately show ?thesis using True ih d hd cs
      by (cases "collapse_ws ?d") auto
  next
    case False
    show ?thesis
    proof (cases cs)
      case Nil
      then show ?thesis using False by simp
    next
      case (Cons d ds)
      then have "no_ws_run (collapse_ws cs) \<and> last (collapse_ws cs) = last cs"
        using 2(2)[OF False] "2.prems"(2) by simp
      then show ?thesis using False Cons by (auto simp: collapse_ws_Nil_iff)
    qed
  qed
qed

lemma collapse_ws_fixed: "no_ws_run r \<Longrightarrow> collapse_ws r = r"
proof (induction r rule: collapse_ws.induct)
  case 1
  then show ?case by simp
next
  case (2 c cs)
  then show ?case by (cases cs) (auto split: if_splits)
qed

lemma strip_fixed:
  "r \<noteq> [] \<Longrightarrow> \<not> is_space (hd r) \<Longrightarrow> \<not> is_space (last r) \<Longrightarrow> strip r = r"
  by (simp add: strip_def dropWhile_id hd_rev)

lemma tidy_collapse_strip: "collapse_ws (strip s) \<noteq> [] \<Longrightarrow> tidy (collapse_ws (strip s))"
proof -
  let ?t = "strip s"
  assume ne: "collapse_ws ?t \<noteq> []"
  then have t: "?t \<noteq> []" by (simp add: collapse_ws_Nil_iff)
  then have e: "\<not> is_space (hd ?t)" "\<not> is_space (last ?t)" using strip_ends[of s] by auto
  show ?thesis unfolding tidy_def
    using collapse_ws_tail[OF t e(2)] collapse_ws_hd[OF t e(1)] ne e by simp
qed

lemma clean_text_tidy: "clean_text repr v = Some r \<Longrightarrow> tidy r"
  using tidy_collapse_strip[of "py_str repr v"]
  by (cases v) (auto simp: clean_text_def Let_def split: if_splits)

lemma clean_text_fixed: "tidy r \<Longrightarrow> clean_text repr (PStr r) = Some r"
  by (simp add: tidy_def clean_text_def py_str_def strip_fixed collapse_ws_fixed)

lemma is_decimal_iff: "is_decimal c \<longleftrightarrow> (\<exists>z \<in> set decimal_zeros. z \<le> c \<and> c < z + 10)"
proof -
  have "is_decimal c \<longleftrightarrow> find (\<lambda>z. z \<le> c \<and> c < z + 10) decimal_zeros \<noteq> None"
    by (simp add: is_decimal_def decimal_value_def split: option.splits)
  then show ?thesis by (auto simp: find_None_iff)
qed

lemma space_not_decimal: "is_space c \<Longrightarrow> \<not> is_decimal c"
  unfolding is_decimal_iff decimal_zeros_def is_space_def by auto

lemma upper_special_not_space: "map_of upper_special c = Some u \<Longrightarrow> \<not> is_space c"
  unfolding upper_special_def by (auto simp: is_space_def split: if_splits)

lemma upper_cp_space: "is_space c \<Longrightarrow> upper_cp c = [c]"
proof -
  assume s: "is_space c"
  then have "\<not> (97 \<le> c \<and> c \<le> 122)" by (auto simp: is_space_def)
  moreover have "map_of upper_special c = None"
    using s upper_special_not_space by (cases "map_of upper_special c") auto
  ultimately show ?thesis by (auto simp: upper_cp_def)
qed

lemma upper_spaces: "list_all is_space l \<Longrightarrow> upper l = l"
  by (induction l) (auto simp: upper_def upper_cp_space)

lemma upper_append: "upper (a @ b) = upper a @ upper b"
  by (simp add: upper_def)

lemma starts_with_iff: "starts_with s w \<longleftrightarrow> (\<exists>v. s = w @ v)"
  by (induction s w rule: starts_with.induct) auto

lemma str_contains_iff: "str_contains s w \<longleftrightarrow> (\<exists>u v. s = u @ w @ v)"
proof (induction s)
  case Nil
  then show ?case by auto
next
  case (Cons c cs)
  show ?case
  proof
    assume "str_contains (c # cs) w"
    then consider "starts_with (c # cs) w" | "str_contains cs w" by auto
    then show "\<exists>u v. c # cs = u @ w @ v"
    proof cases
      case 1
      then obtain v where "c # cs = w @ v" using starts_with_iff by blast
      then have "c # cs = [] @ w @ v" by simp
      then show ?thesis by blast
    next
      case 2
      then obtain u v where "cs = u @ w @ v" using Cons.IH by blast
      then have "c # cs = (c # u) @ w @ v" by simp
      then show ?thesis by blast
    qed
  next
    assume "\<exists>u v. c # cs = u @ w @ v"
    then obtain u v where e: "c # cs = u @ w @ v" by blast
    show "str_contains (c # cs) w"
    proof (cases u)
      case Nil
      then have "starts_with (c # cs) w" using e starts_with_iff by auto
      then show ?thesis by simp
    next
      case (Cons a u')
      then have "cs = u' @ w @ v" using e by simp
      then have "str_contains cs w" using Cons.IH by blast
      then show ?thesis by simp
    qed
  qed
qed

lemma strip_decomp:
  "\<exists>l r. s = l @ strip s @ r \<and> list_all is_space l \<and> list_all is_space r"
proof -
  let ?l = "takeWhile is_space s"
  let ?a = "dropWhile is_space s"
  let ?r = "rev (takeWhile is_space (rev ?a))"
  have "rev (takeWhile is_space (rev ?a) @ dropWhile is_space (rev ?a)) = rev (rev ?a)"
    by (simp only: takeWhile_dropWhile_id)
  then have "rev (dropWhile is_space (rev ?a)) @ ?r = ?a"
    by (simp only: rev_append rev_rev_ident)
  then have a: "?a = strip s @ ?r" by (simp only: strip_def)
  have "s = ?l @ ?a" by simp
  then have "s = ?l @ strip s @ ?r" using a by simp
  moreover have "list_all is_space ?l"
    by (simp add: list_all_iff) (meson set_takeWhileD)
  moreover have "list_all is_space ?r"
    by (simp add: list_all_iff) (meson set_takeWhileD)
  ultimately show ?thesis by blast
qed

lemma occurs_trim_left:
  "list_all P l \<Longrightarrow> w \<noteq> [] \<Longrightarrow> \<not> P (hd w) \<Longrightarrow> l @ m = u @ w @ v \<Longrightarrow> \<exists>u' v'. m = u' @ w @ v'"
proof (induction l arbitrary: u)
  case Nil
  then show ?case by auto
next
  case (Cons a l)
  show ?case
  proof (cases u)
    case Nil
    then have "a = hd w" using Cons.prems by (cases w) auto
    then show ?thesis using Cons.prems by simp
  next
    case (Cons b u')
    then have "l @ m = u' @ w @ v" using Cons.prems by simp
    then show ?thesis using Cons.IH Cons.prems by simp
  qed
qed

lemma occurs_trim_right:
  "list_all P r \<Longrightarrow> w \<noteq> [] \<Longrightarrow> \<not> P (last w) \<Longrightarrow> m @ r = u @ w @ v \<Longrightarrow> \<exists>u' v'. m = u' @ w @ v'"
proof (induction r arbitrary: v rule: rev_induct)
  case Nil
  then show ?case by auto
next
  case (snoc a r)
  show ?case
  proof (cases v rule: rev_cases)
    case Nil
    then have "(m @ r) @ [a] = (u @ butlast w) @ [last w]" using snoc.prems by simp
    then have "a = last w" by (simp only: append1_eq_conv)
    then show ?thesis using snoc.prems by simp
  next
    case (snoc v' b)
    then have "(m @ r) @ [a] = (u @ w @ v') @ [b]" using snoc.prems by simp
    then have "m @ r = u @ w @ v'" by (simp only: append1_eq_conv)
    then show ?thesis using snoc.IH snoc.prems by simp
  qed
qed

lemma has_word_strip:
  assumes "w \<noteq> []" "\<not> is_space (hd w)" "\<not> is_space (last w)"
  shows "has_word (strip s) w \<longleftrightarrow> has_word s w"
proof -
  obtain l r where d: "s = l @ strip s @ r" and l: "list_all is_space l" and r: "list_all is_space r"
    using strip_decomp by blast
  have u: "upper s = l @ upper (strip s) @ r"
    using upper_append[of l "strip s @ r"] upper_append[of "strip s" r] upper_spaces[OF l]
      upper_spaces[OF r] d by simp
  show ?thesis
  proof
    assume "has_word (strip s) w"
    then obtain a b where "upper (strip s) = a @ w @ b" by (auto simp: has_word_def)
    then have "upper s = (l @ a) @ w @ (b @ r)" using u by simp
    then show "has_word s w" unfolding has_word_def by blast
  next
    assume "has_word s w"
    then obtain a b where "l @ (upper (strip s) @ r) = a @ w @ b"
      using u by (auto simp: has_word_def)
    then obtain a' b' where "upper (strip s) @ r = a' @ w @ b'"
      using occurs_trim_left[OF l assms(1) assms(2)] by blast
    then obtain a'' b'' where "upper (strip s) = a'' @ w @ b''"
      using occurs_trim_right[OF r assms(1) assms(3)] by blast
    then show "has_word (strip s) w" unfolding has_word_def by blast
  qed
qed

lemma member_strip: "\<not> is_space c \<Longrightarrow> c \<in> set (strip s) \<longleftrightarrow> c \<in> set s"
proof -
  assume c: "\<not> is_space c"
  obtain l r where d: "s = l @ strip s @ r" and l: "list_all is_space l" and r: "list_all is_space r"
    using strip_decomp by blast
  have "set s = set l \<union> set (strip s) \<union> set r" using arg_cong[OF d, of set] by auto
  moreover have "c \<notin> set l" "c \<notin> set r" using c l r by (auto simp: list_all_iff)
  ultimately show ?thesis by auto
qed

lemma filter_decimal_spaces: "list_all is_space l \<Longrightarrow> filter is_decimal l = []"
  by (induction l) (auto simp: space_not_decimal)

lemma filter_decimal_strip: "filter is_decimal (strip s) = filter is_decimal s"
proof -
  obtain l r where d: "s = l @ strip s @ r" and l: "list_all is_space l" and r: "list_all is_space r"
    using strip_decomp by blast
  have "filter is_decimal s = filter is_decimal (l @ strip s @ r)" using d by simp
  then show ?thesis using filter_decimal_spaces[OF l] filter_decimal_spaces[OF r] by simp
qed

lemma py_int_digits:
  "ds \<noteq> [] \<Longrightarrow> list_all is_decimal ds \<Longrightarrow>
   py_int ds = (if length ds \<le> int_max_str_digits then Some (decimal_number ds) else None)"
  by (simp add: py_int_def)

lemma py_int_filter:
  "filter is_decimal s \<noteq> [] \<Longrightarrow>
   py_int (filter is_decimal s) =
     (if length (filter is_decimal s) \<le> int_max_str_digits
      then Some (decimal_number (filter is_decimal s)) else None)"
  by (rule py_int_digits) (auto simp: list_all_iff)

lemma detect_currency_spec: "detect_currency (strip s) = currency_by_precedence s"
proof -
  have w: "\<And>w. w \<in> {ustr ''EUR'', ustr ''USD'', ustr ''CHF''} \<Longrightarrow>
      str_contains (upper (strip s)) w \<longleftrightarrow> has_word s w"
  proof -
    fix w :: ustr
    assume "w \<in> {ustr ''EUR'', ustr ''USD'', ustr ''CHF''}"
    then have "w \<noteq> [] \<and> \<not> is_space (hd w) \<and> \<not> is_space (last w)"
      by (auto simp: ustr_def is_space_def)
    then have "has_word (strip s) w \<longleftrightarrow> has_word s w" using has_word_strip by blast
    then show "str_contains (upper (strip s)) w \<longleftrightarrow> has_word s w"
      by (simp add: str_contains_iff has_word_def)
  qed
  have e: "euro_sign \<in> set (strip s) \<longleftrightarrow> euro_sign \<in> set s"
    by (rule member_strip) (simp add: is_space_def euro_sign_def)
  have d: "36 \<in> set (strip s) \<longleftrightarrow> 36 \<in> set s"
    by (rule member_strip) (simp add: is_space_def)
  show ?thesis
    unfolding detect_currency_def currency_by_precedence_def
    using w[of "ustr ''EUR''"] w[of "ustr ''USD''"] w[of "ustr ''CHF''"] e d by simp
qed

section \<open>Text cleanup\<close>

text \<open>
  Claim C10. Text cleanup is idempotent: cleaning the result of \<open>clean_text\<close> again
  gives the same result. A cleaned text is a fixed point, and \<open>None\<close> stays \<open>None\<close>.
\<close>

theorem clean_text_idempotent:
  "clean_text repr (of_opt (clean_text repr v)) = clean_text repr v"
proof (cases "clean_text repr v")
  case None
  then show ?thesis by (simp add: clean_text_def)
next
  case (Some r)
  then show ?thesis using clean_text_fixed[OF clean_text_tidy[OF Some]] by simp
qed

section \<open>Price parsing\<close>

lemma parse_price_general:
  "parse_price (Some p) = (number_of_digits p, currency_by_precedence p)"
proof (cases "p = []")
  case True
  then show ?thesis
    by (simp add: parse_price_def number_of_digits_def currency_by_precedence_def has_word_def
        upper_def ustr_def)
next
  case False
  then show ?thesis
    using py_int_filter[of p]
    by (simp add: parse_price_def Let_def filter_decimal_strip detect_currency_spec
        number_of_digits_def)
qed

lemma filter_takeWhile_same: "filter P (takeWhile P xs) = takeWhile P xs"
  by (induction xs) auto

lemma filter_decimal_split:
  "filter is_decimal cs = takeWhile is_decimal cs @ filter is_decimal (dropWhile is_decimal cs)"
proof -
  have "filter is_decimal cs = filter is_decimal (takeWhile is_decimal cs @ dropWhile is_decimal cs)"
    by simp
  then show ?thesis by (simp only: filter_append filter_takeWhile_same)
qed

lemma concat_findall_digits: "concat (findall_digits s) = filter is_decimal s"
proof (induction s rule: findall_digits.induct)
  case 1
  then show ?case by simp
next
  case (2 c cs)
  then show ?case using filter_decimal_split[of cs] by simp
qed

lemma findall_digits_Nil: "findall_digits s = [] \<longleftrightarrow> filter is_decimal s = []"
  by (induction s rule: findall_digits.induct) auto

lemma filter_decimal_cleanup:
  "filter is_decimal (filter (\<lambda>c. c \<noteq> 32) (filter (\<lambda>c. c \<noteq> 46) s)) = filter is_decimal s"
proof -
  have "\<not> is_decimal 32" "\<not> is_decimal 46" by (simp_all add: is_decimal_low)
  then have "\<And>c. (c \<noteq> 46 \<and> c \<noteq> 32 \<and> is_decimal c) = is_decimal c" by auto
  then show ?thesis by (simp add: conj_commute conj_left_commute)
qed

lemma extract_number_general: "extract_number t = Option.bind t number_of_digits"
proof (cases t)
  case None
  then show ?thesis by (simp add: extract_number_def)
next
  case (Some s)
  show ?thesis
  proof (cases "filter is_decimal s = []")
    case True
    then show ?thesis
      using Some by (simp add: extract_number_def number_of_digits_def Let_def findall_digits_Nil
          filter_decimal_cleanup del: filter_filter)
  next
    case False
    then have "s \<noteq> []" by auto
    then show ?thesis
      using Some False py_int_filter[of s]
      by (simp add: extract_number_def number_of_digits_def Let_def findall_digits_Nil
          filter_decimal_cleanup concat_findall_digits del: filter_filter)
  qed
qed

text \<open>
  Claim C3, with the price clause amended. The currency is found by precedence (euro
  sign or EUR, else dollar sign or USD, else CHF, else none); the price is the integer
  written by the decimal digits of the text, and is absent when the text has no digit or
  has more digits than \<open>int\<close> converts (4300), the currency being kept in both
  cases; a missing or empty text gives neither. The two examples of the specification
  evaluate to (31980, EUR) and (12500, USD).
\<close>

theorem parse_price_spec:
  "parse_price None = (None, None) \<and>
   parse_price (Some []) = (None, None) \<and>
   parse_price (Some p) = (number_of_digits p, currency_by_precedence p) \<and>
   parse_price (Some (euro_sign # ustr '' 31,980'')) = (Some 31980, Some (ustr ''EUR'')) \<and>
   parse_price (Some (ustr ''$ 12,500'')) = (Some 12500, Some (ustr ''USD'')) \<and>
   parse_price (Some (ustr ''CHF'')) = (None, Some (ustr ''CHF''))"
proof -
  have g: "parse_price (Some p) = (number_of_digits p, currency_by_precedence p)"
    by (rule parse_price_general)
  have e1: "parse_price (Some (euro_sign # ustr '' 31,980'')) = (Some 31980, Some (ustr ''EUR''))"
    by (simp add: parse_price_def detect_currency_def ustr_def strip_def is_space_def
        euro_sign_def upper_def upper_cp_low upper_cp_euro is_decimal_low is_decimal_euro
        py_int_def int_max_str_digits_def decimal_number_def digit_of_low)
  have e2: "parse_price (Some (ustr ''$ 12,500'')) = (Some 12500, Some (ustr ''USD''))"
    by (simp add: parse_price_def detect_currency_def ustr_def strip_def is_space_def
        euro_sign_def upper_def upper_cp_low is_decimal_low py_int_def int_max_str_digits_def
        decimal_number_def digit_of_low)
  have e3: "parse_price (Some (ustr ''CHF'')) = (None, Some (ustr ''CHF''))"
    by (simp add: parse_price_def detect_currency_def ustr_def strip_def is_space_def
        euro_sign_def upper_def upper_cp_low is_decimal_low py_int_def int_max_str_digits_def
        decimal_number_def digit_of_low)
  show ?thesis using g e1 e2 e3 by (simp add: parse_price_def)
qed

text \<open>
  Claim C3 as it was stated gives a price whenever a digit remains. A text of 4301
  zeros keeps all its digits, \<open>int\<close> raises ValueError on them, and the price is
  absent.
\<close>

theorem long_price_counterexample:
  "filter is_decimal (replicate 4301 48) = replicate 4301 48 \<and>
   length (replicate 4301 (48::nat)) = 4301 \<and>
   fst (parse_price (Some (replicate 4301 48))) = None"
proof -
  have d: "is_decimal 48" by (simp add: is_decimal_low)
  then have f: "filter is_decimal (replicate 4301 48) = replicate 4301 48" by simp
  have "number_of_digits (replicate 4301 48) = None"
    by (simp add: number_of_digits_def f int_max_str_digits_def)
  then show ?thesis using f by (simp add: parse_price_general)
qed

section \<open>Power parsing\<close>

lemma find_map_only:
  "(\<And>x. x \<in> set xs \<Longrightarrow> Q (f x) \<Longrightarrow> x = d) \<Longrightarrow>
   find Q (map f xs) = (if d \<in> set xs \<and> Q (f d) then Some (f d) else None)"
  by (induction xs) auto

lemma drop_takeWhile_hd:
  "n < length (takeWhile P s) \<Longrightarrow> drop n s \<noteq> [] \<and> P (hd (drop n s))"
proof -
  assume n: "n < length (takeWhile P s)"
  have le: "length (takeWhile P s) \<le> length s" by (rule length_takeWhile_le)
  then have "n < length s" using n by simp
  then have "drop n s \<noteq> [] \<and> hd (drop n s) = s ! n" by (simp add: hd_drop_conv_nth)
  moreover have "s ! n = takeWhile P s ! n" using n by (simp add: takeWhile_nth)
  moreover have "P (takeWhile P s ! n)" using n nth_mem set_takeWhileD by metis
  ultimately show ?thesis by simp
qed

lemma drop_length_takeWhile: "drop (length (takeWhile P s)) s = dropWhile P s"
  by (metis append_eq_conv_conj takeWhile_dropWhile_id)

lemma take_length_takeWhile: "take (length (takeWhile P s)) s = takeWhile P s"
  by (metis append_eq_conv_conj takeWhile_dropWhile_id)

lemma inner_splits:
  assumes u: "\<And>r. unit r \<Longrightarrow> r \<noteq> [] \<and> \<not> is_space (hd r)"
  shows "list_ex (\<lambda>(ws, r'). unit r') (greedy_splits is_space 0 r) \<longleftrightarrow> unit (dropWhile is_space r)"
proof -
  let ?W = "length (takeWhile is_space r)"
  have "list_ex (\<lambda>(ws, r'). unit r') (greedy_splits is_space 0 r) \<longleftrightarrow>
      (\<exists>n \<in> {0 ..< Suc ?W}. unit (drop n r))"
    by (simp add: greedy_splits_def list_ex_iff del: upt_Suc)
  also have "\<dots> \<longleftrightarrow> (\<exists>n \<le> ?W. unit (drop n r))"
    using less_Suc_eq_le by auto
  also have "\<dots> \<longleftrightarrow> unit (drop ?W r)"
  proof
    assume "\<exists>n \<le> ?W. unit (drop n r)"
    then obtain n where n: "n \<le> ?W" "unit (drop n r)" by blast
    have "n = ?W"
    proof (rule ccontr)
      assume "n \<noteq> ?W"
      then have "n < ?W" using n by simp
      then have "is_space (hd (drop n r))" using drop_takeWhile_hd by blast
      then show False using u[OF n(2)] by simp
    qed
    then show "unit (drop ?W r)" using n by simp
  qed auto
  finally show ?thesis by (simp add: drop_length_takeWhile)
qed

lemma match_power_eq:
  assumes u: "\<And>r. unit r \<Longrightarrow> r \<noteq> [] \<and> \<not> is_space (hd r) \<and> \<not> is_decimal (hd r)"
  shows "match_power unit s =
     (if takeWhile is_decimal s \<noteq> [] \<and> unit (dropWhile is_space (dropWhile is_decimal s))
      then Some (takeWhile is_decimal s) else None)"
proof -
  let ?D = "length (takeWhile is_decimal s)"
  let ?Q = "\<lambda>(ds, r). list_ex (\<lambda>(ws, r'). unit r') (greedy_splits is_space 0 r)"
  let ?f = "\<lambda>n. (take n s, drop n s)"
  have Q: "\<And>n. ?Q (?f n) \<longleftrightarrow> unit (dropWhile is_space (drop n s))"
    using inner_splits[of unit] u by simp
  have only: "\<And>n. n \<in> set (rev [1 ..< Suc ?D]) \<Longrightarrow> ?Q (?f n) \<Longrightarrow> n = ?D"
  proof -
    fix n
    assume n: "n \<in> set (rev [1 ..< Suc ?D])" and q: "?Q (?f n)"
    show "n = ?D"
    proof (rule ccontr)
      assume "n \<noteq> ?D"
      then have lt: "n < ?D" using n by auto
      then have d: "drop n s \<noteq> [] \<and> is_decimal (hd (drop n s))" using drop_takeWhile_hd by blast
      then have "\<not> is_space (hd (drop n s))" using space_not_decimal by blast
      then have "dropWhile is_space (drop n s) = drop n s" using d by (simp add: dropWhile_id)
      then have "unit (drop n s)" using q Q by simp
      then show False using u d by blast
    qed
  qed
  have "find ?Q (map ?f (rev [1 ..< Suc ?D])) =
      (if ?D \<in> set (rev [1 ..< Suc ?D]) \<and> ?Q (?f ?D) then Some (?f ?D) else None)"
    by (rule find_map_only) (use only in blast)
  then have "match_power unit s =
      (if 1 \<le> ?D \<and> unit (dropWhile is_space (drop ?D s)) then Some (take ?D s) else None)"
    using Q[of ?D] by (auto simp: match_power_def greedy_splits_def)
  moreover have "1 \<le> ?D \<longleftrightarrow> takeWhile is_decimal s \<noteq> []" by (cases "takeWhile is_decimal s") auto
  ultimately show ?thesis by (simp add: drop_length_takeWhile take_length_takeWhile)
qed


lemma unit_kW_hd: "unit_kW r \<Longrightarrow> r \<noteq> [] \<and> \<not> is_space (hd r) \<and> \<not> is_decimal (hd r)"
  by (cases r) (auto simp: unit_kW_def ustr_def is_space_def is_decimal_low)

lemma unit_hp_hd: "unit_hp r \<Longrightarrow> r \<noteq> [] \<and> \<not> is_space (hd r) \<and> \<not> is_decimal (hd r)"
  by (cases r) (auto simp: unit_hp_def is_space_def is_decimal_low split: list.splits)

lemma match_kW:
  "match_power unit_kW s =
     (if takeWhile is_decimal s \<noteq> [] \<and> unit_kW (dropWhile is_space (dropWhile is_decimal s))
      then Some (takeWhile is_decimal s) else None)"
  by (rule match_power_eq) (rule unit_kW_hd)

lemma match_hp:
  "match_power unit_hp s =
     (if takeWhile is_decimal s \<noteq> [] \<and> unit_hp (dropWhile is_space (dropWhile is_decimal s))
      then Some (takeWhile is_decimal s) else None)"
  by (rule match_power_eq) (rule unit_hp_hd)

lemma re_search_Some:
  "re_search_power unit s = Some g \<Longrightarrow>
   \<exists>pre rest. s = pre @ rest \<and> match_power unit rest = Some g \<and>
     (\<forall>pre' rest'. s = pre' @ rest' \<and> length pre' < length pre \<longrightarrow> match_power unit rest' = None)"
proof (induction s)
  case Nil
  then have "[] = [] @ [] \<and> match_power unit [] = Some g" by simp
  then show ?case by fastforce
next
  case (Cons c cs)
  show ?case
  proof (cases "match_power unit (c # cs)")
    case None
    then have "re_search_power unit cs = Some g" using Cons.prems by simp
    then obtain pre rest where p: "cs = pre @ rest" "match_power unit rest = Some g"
      and m: "\<And>pre' rest'. cs = pre' @ rest' \<Longrightarrow> length pre' < length pre \<Longrightarrow>
        match_power unit rest' = None"
      using Cons.IH by blast
    have "\<forall>pre' rest'. c # cs = pre' @ rest' \<and> length pre' < length (c # pre) \<longrightarrow>
        match_power unit rest' = None"
    proof (intro allI impI)
      fix pre' rest'
      assume a: "c # cs = pre' @ rest' \<and> length pre' < length (c # pre)"
      show "match_power unit rest' = None"
      proof (cases pre')
        case Nil
        then show ?thesis using a None by simp
      next
        case (Cons d pre'')
        then have "cs = pre'' @ rest'" "length pre'' < length pre" using a by auto
        then show ?thesis using m by blast
      qed
    qed
    moreover have "c # cs = (c # pre) @ rest" using p by simp
    ultimately show ?thesis using p(2) by blast
  next
    case (Some a)
    then have "c # cs = [] @ (c # cs) \<and> match_power unit (c # cs) = Some g"
      using Cons.prems by simp
    then show ?thesis by fastforce
  qed
qed

lemma re_search_None:
  "re_search_power unit (pre @ rest) = None \<Longrightarrow> match_power unit rest = None"
proof (induction pre)
  case Nil
  then show ?case by (cases rest) (auto split: option.splits)
next
  case (Cons c pre)
  then show ?case by (auto split: option.splits)
qed

lemma takeWhile_block:
  "list_all P xs \<Longrightarrow> ys = [] \<or> \<not> P (hd ys) \<Longrightarrow>
   takeWhile P (xs @ ys) = xs \<and> dropWhile P (xs @ ys) = ys"
proof (induction xs)
  case Nil
  then show ?case by (cases ys) auto
next
  case (Cons x xs)
  then show ?case by simp
qed

lemma match_occurrence:
  assumes u: "\<And>r. unit r \<Longrightarrow> r \<noteq> [] \<and> \<not> is_space (hd r) \<and> \<not> is_decimal (hd r)"
    and m: "match_power unit rest = Some g"
  shows "unit_occurrence unit (pre @ rest) pre g \<and> g \<noteq> [] \<and> list_all is_decimal g"
proof -
  let ?d = "dropWhile is_decimal rest"
  from m have g: "g = takeWhile is_decimal rest" and ne: "g \<noteq> []"
    and un: "unit (dropWhile is_space ?d)"
    using match_power_eq[of unit rest] u by (auto split: if_splits)
  have "rest = g @ ?d" using g by simp
  moreover have "?d = takeWhile is_space ?d @ dropWhile is_space ?d" by simp
  ultimately have "pre @ rest = pre @ g @ takeWhile is_space ?d @ dropWhile is_space ?d"
    by simp
  moreover have dg: "list_all is_decimal g"
    unfolding g by (simp add: list_all_iff) (meson set_takeWhileD)
  moreover have "list_all is_space (takeWhile is_space ?d)"
    by (simp add: list_all_iff) (meson set_takeWhileD)
  ultimately show ?thesis unfolding unit_occurrence_def using ne un by blast
qed

lemma occurrence_match:
  assumes u: "\<And>r. unit r \<Longrightarrow> r \<noteq> [] \<and> \<not> is_space (hd r) \<and> \<not> is_decimal (hd r)"
    and o: "unit_occurrence unit s pre ds"
  shows "\<exists>rest. s = pre @ rest \<and> match_power unit rest = Some ds"
proof -
  from o obtain ws rest where s: "s = pre @ ds @ ws @ rest" and ne: "ds \<noteq> []"
    and d: "list_all is_decimal ds" and w: "list_all is_space ws" and un: "unit rest"
    unfolding unit_occurrence_def by blast
  have r: "rest \<noteq> []" "\<not> is_space (hd rest)" "\<not> is_decimal (hd rest)" using u[OF un] by auto
  have "\<not> is_decimal (hd (ws @ rest))"
    using r w by (cases ws) (auto simp: space_not_decimal)
  then have t: "takeWhile is_decimal (ds @ ws @ rest) = ds \<and>
      dropWhile is_decimal (ds @ ws @ rest) = ws @ rest"
    using takeWhile_block[OF d, of "ws @ rest"] by simp
  have "dropWhile is_space (ws @ rest) = rest"
    using takeWhile_block[OF w, of rest] r by simp
  then have "match_power unit (ds @ ws @ rest) = Some ds"
    using match_power_eq[of unit "ds @ ws @ rest"] u t ne un by simp
  then show ?thesis using s by blast
qed

lemma power_value:
  assumes u: "\<And>r. unit r \<Longrightarrow> r \<noteq> [] \<and> \<not> is_space (hd r) \<and> \<not> is_decimal (hd r)"
  shows "case (case re_search_power unit s of None \<Rightarrow> None | Some g \<Rightarrow> py_int g) of
           None \<Rightarrow> (\<forall>pre ds. unit_first unit s pre ds \<longrightarrow> int_max_str_digits < length ds)
         | Some n \<Rightarrow>
             (\<exists>pre ds. unit_first unit s pre ds \<and> length ds \<le> int_max_str_digits \<and>
                n = decimal_number ds)"
proof (cases "re_search_power unit s")
  case None
  have "\<not> (\<exists>pre ds. unit_occurrence unit s pre ds)"
  proof
    assume "\<exists>pre ds. unit_occurrence unit s pre ds"
    then obtain pre ds where "unit_occurrence unit s pre ds" by blast
    then obtain rest where "s = pre @ rest" "match_power unit rest = Some ds"
      using occurrence_match[of unit s pre ds] u by blast
    then show False using re_search_None[of unit pre rest] None by simp
  qed
  then show ?thesis using None by (simp add: unit_first_def)
next
  case (Some g)
  then obtain pre rest where s: "s = pre @ rest" and m: "match_power unit rest = Some g"
    and least: "\<And>pre' rest'. s = pre' @ rest' \<Longrightarrow> length pre' < length pre \<Longrightarrow>
        match_power unit rest' = None"
    using re_search_Some[of unit s g] by blast
  have o: "unit_occurrence unit s pre g \<and> g \<noteq> [] \<and> list_all is_decimal g"
    using match_occurrence[of unit rest g pre] u m s by simp
  have left: "\<And>pre' ds'. unit_occurrence unit s pre' ds' \<Longrightarrow>
      length pre \<le> length pre' \<and> (length pre' = length pre \<longrightarrow> ds' = g)"
  proof -
    fix pre' ds'
    assume "unit_occurrence unit s pre' ds'"
    then obtain rest' where r: "s = pre' @ rest'" "match_power unit rest' = Some ds'"
      using occurrence_match[of unit s pre' ds'] u by blast
    have le: "length pre \<le> length pre'"
    proof (rule ccontr)
      assume "\<not> length pre \<le> length pre'"
      then have "match_power unit rest' = None" using least[OF r(1)] by simp
      then show False using r(2) by simp
    qed
    have "length pre' = length pre \<longrightarrow> ds' = g"
    proof
      assume "length pre' = length pre"
      then have "rest' = rest" using s r(1) by simp
      then show "ds' = g" using m r(2) by simp
    qed
    then show "length pre \<le> length pre' \<and> (length pre' = length pre \<longrightarrow> ds' = g)"
      using le by simp
  qed
  have first: "unit_first unit s pre g"
    using o left by (simp add: unit_first_def)
  have only: "\<And>pre' ds'. unit_first unit s pre' ds' \<Longrightarrow> ds' = g"
  proof -
    fix pre' ds'
    assume f: "unit_first unit s pre' ds'"
    then have "length pre' \<le> length pre" using o by (auto simp: unit_first_def)
    moreover have "unit_occurrence unit s pre' ds'" using f by (simp add: unit_first_def)
    ultimately show "ds' = g" using left[of pre' ds'] by auto
  qed
  show ?thesis
  proof (cases "length g \<le> int_max_str_digits")
    case True
    then have "py_int g = Some (decimal_number g)" using o by (simp add: py_int_def)
    then show ?thesis using Some first True by auto
  next
    case False
    then have "py_int g = None" by (simp add: py_int_def)
    moreover have "\<forall>pre' ds'. unit_first unit s pre' ds' \<longrightarrow> int_max_str_digits < length ds'"
      using only False by auto
    ultimately show ?thesis using Some by simp
  qed
qed

lemma kw_occurrence_unit: "kw_occurrence s pre ds \<longleftrightarrow> unit_occurrence unit_kW s pre ds"
  unfolding kw_occurrence_def unit_occurrence_def unit_kW_def starts_with_iff by blast

lemma unit_hp_iff:
  "unit_hp r \<longleftrightarrow> (\<exists>h p post. r = [h, p] @ post \<and> (h = 104 \<or> h = 72) \<and> (p = 112 \<or> p = 80))"
  by (auto simp: unit_hp_def split: list.splits)

lemma hp_occurrence_unit: "hp_occurrence s pre ds \<longleftrightarrow> unit_occurrence unit_hp s pre ds"
  unfolding hp_occurrence_def unit_occurrence_def unit_hp_iff by blast

lemma kw_first_unit: "kw_first s pre ds \<longleftrightarrow> unit_first unit_kW s pre ds"
  by (simp add: kw_first_def unit_first_def kw_occurrence_unit)

lemma hp_first_unit: "hp_first s pre ds \<longleftrightarrow> unit_first unit_hp s pre ds"
  by (simp add: hp_first_def unit_first_def hp_occurrence_unit)

lemma power_examples:
  "parse_power (Some (ustr ''240 kW (326 hp)'')) = (Some 240, Some 326)"
  "parse_power (Some (ustr ''180 kW'')) = (Some 180, None)"
  "parse_power (Some (ustr ''326 HP'')) = (None, Some 326)"
  "parse_power (Some (ustr ''180 KW'')) = (None, None)"
  by (simp_all add: parse_power_def ustr_def match_kW match_hp is_decimal_low is_space_def
      unit_kW_def unit_hp_def py_int_def int_max_str_digits_def decimal_number_def
      digit_of_low)

text \<open>
  Claim C4. The kW pattern and the hp pattern are searched independently in the same
  text, the hp unit in either case, so either, both or neither output may be present.
  Each output is decided by the leftmost occurrence of its own pattern: it is the number
  written by the digits of that occurrence, and it is absent when the pattern does not
  occur or when that occurrence has more digits than \<open>int\<close> converts. A missing text
  gives neither. "240 kW (326 hp)" gives 240 and 326, and "180 kW" gives 180 and no hp.
\<close>

theorem parse_power_spec:
  "parse_power None = (None, None) \<and>
   parse_power (Some []) = (None, None) \<and>
   (case fst (parse_power (Some s)) of
      None \<Rightarrow> (\<forall>pre ds. kw_first s pre ds \<longrightarrow> int_max_str_digits < length ds)
    | Some n \<Rightarrow>
        (\<exists>pre ds. kw_first s pre ds \<and> length ds \<le> int_max_str_digits \<and>
           n = decimal_number ds)) \<and>
   (case snd (parse_power (Some s)) of
      None \<Rightarrow> (\<forall>pre ds. hp_first s pre ds \<longrightarrow> int_max_str_digits < length ds)
    | Some n \<Rightarrow>
        (\<exists>pre ds. hp_first s pre ds \<and> length ds \<le> int_max_str_digits \<and>
           n = decimal_number ds)) \<and>
   parse_power (Some (ustr ''240 kW (326 hp)'')) = (Some 240, Some 326) \<and>
   parse_power (Some (ustr ''180 kW'')) = (Some 180, None) \<and>
   parse_power (Some (ustr ''326 HP'')) = (None, Some 326) \<and>
   parse_power (Some (ustr ''180 KW'')) = (None, None)"
proof -
  have k: "case fst (parse_power (Some s)) of
      None \<Rightarrow> (\<forall>pre ds. kw_first s pre ds \<longrightarrow> int_max_str_digits < length ds)
    | Some n \<Rightarrow>
        (\<exists>pre ds. kw_first s pre ds \<and> length ds \<le> int_max_str_digits \<and>
           n = decimal_number ds)"
  proof (cases "s = []")
    case True
    then show ?thesis by (simp add: parse_power_def kw_first_def kw_occurrence_def)
  next
    case False
    then show ?thesis
      using power_value[of unit_kW s] unit_kW_hd unfolding kw_first_unit
      by (simp add: parse_power_def Let_def)
  qed
  have h: "case snd (parse_power (Some s)) of
      None \<Rightarrow> (\<forall>pre ds. hp_first s pre ds \<longrightarrow> int_max_str_digits < length ds)
    | Some n \<Rightarrow>
        (\<exists>pre ds. hp_first s pre ds \<and> length ds \<le> int_max_str_digits \<and>
           n = decimal_number ds)"
  proof (cases "s = []")
    case True
    then show ?thesis by (simp add: parse_power_def hp_first_def hp_occurrence_def)
  next
    case False
    then show ?thesis
      using power_value[of unit_hp s] unit_hp_hd unfolding hp_first_unit
      by (simp add: parse_power_def Let_def)
  qed
  show ?thesis using k h power_examples by (simp add: parse_power_def)
qed

theorem parse_power_spec_witness:
  "parse_power (Some (ustr ''12kW 240 kW'')) = (Some 12, None) \<and>
   kw_occurrence (ustr ''12kW 240 kW'') [] (ustr ''12'') \<and>
   kw_occurrence (ustr ''12kW 240 kW'') (ustr ''12kW '') (ustr ''240'') \<and>
   (\<exists>pre ds. kw_first (ustr ''12kW 240 kW'') pre ds \<and> length ds \<le> int_max_str_digits \<and>
      (12::int) = decimal_number ds \<and> length pre \<le> length ([]::ustr))"
proof -
  have p: "parse_power (Some (ustr ''12kW 240 kW'')) = (Some 12, None)"
    by (simp add: parse_power_def ustr_def match_kW match_hp is_decimal_low is_space_def
        unit_kW_def unit_hp_def py_int_def int_max_str_digits_def decimal_number_def
        digit_of_low)
  have o1: "kw_occurrence (ustr ''12kW 240 kW'') [] (ustr ''12'')"
  proof -
    have "ustr ''12kW 240 kW'' = [] @ ustr ''12'' @ [] @ ustr ''kW'' @ ustr '' 240 kW''"
      by (simp add: ustr_def)
    moreover have "ustr ''12'' \<noteq> [] \<and> list_all is_decimal (ustr ''12'') \<and> list_all is_space []"
      by (simp add: ustr_def is_decimal_low)
    ultimately show ?thesis unfolding kw_occurrence_def by blast
  qed
  have o2: "kw_occurrence (ustr ''12kW 240 kW'') (ustr ''12kW '') (ustr ''240'')"
  proof -
    have "ustr ''12kW 240 kW'' = ustr ''12kW '' @ ustr ''240'' @ ustr '' '' @ ustr ''kW'' @ []"
      by (simp add: ustr_def)
    moreover have "ustr ''240'' \<noteq> [] \<and> list_all is_decimal (ustr ''240'') \<and>
        list_all is_space (ustr '' '')"
      by (simp add: ustr_def is_decimal_low is_space_def)
    ultimately show ?thesis unfolding kw_occurrence_def by blast
  qed
  have "\<exists>pre ds. kw_first (ustr ''12kW 240 kW'') pre ds \<and> length ds \<le> int_max_str_digits \<and>
      (12::int) = decimal_number ds"
    using parse_power_spec[of "ustr ''12kW 240 kW''"] p by simp
  then obtain pre ds where w: "kw_first (ustr ''12kW 240 kW'') pre ds"
    "length ds \<le> int_max_str_digits" "(12::int) = decimal_number ds"
    by blast
  have "length pre \<le> length ([]::ustr)" using w(1) o1 unfolding kw_first_def by blast
  then show ?thesis using p o1 o2 w by blast
qed

section \<open>Normalizing a listing\<close>

lemma set_if_some_apply:
  "set_if_some key v l k = (if k = key then (case v of None \<Rightarrow> l k | Some x \<Rightarrow> Some x) else l k)"
  by (simp add: set_if_some_def split: option.splits)

lemma dict_get_set_if_some: "k \<noteq> key \<Longrightarrow> dict_get (set_if_some key v l) k = dict_get l k"
  by (simp add: dict_get_def set_if_some_apply)

lemma text_of_of_opt: "text_of (of_opt x) = x"
  by (cases x) auto

lemma fold_clean_field:
  "distinct ks \<Longrightarrow>
   fold (clean_field repr) ks l k =
     (if k \<in> set ks then Some (of_opt (clean_text repr (dict_get l k))) else l k)"
proof (induction ks arbitrary: l)
  case Nil
  then show ?case by simp
next
  case (Cons a ks)
  then show ?case by (auto simp: clean_field_def dict_get_def)
qed

lemma distinct_text_keys: "distinct text_keys"
  by (simp add: text_keys_def)

lemma cleaned_apply:
  "fold (clean_field repr) text_keys l k =
     (if k \<in> set text_keys then Some (of_opt (clean_text repr (dict_get l k))) else l k)"
  by (rule fold_clean_field) (rule distinct_text_keys)

lemma price_fields_apply:
  "price_fields l k =
     (if k = ''rawPrice'' then
        (case fst (parse_price (text_of (dict_get l ''price''))) of None \<Rightarrow> l k | Some p \<Rightarrow> Some (PInt p))
      else if k = ''currency'' then
        (case snd (parse_price (text_of (dict_get l ''price''))) of None \<Rightarrow> l k | Some c \<Rightarrow> Some (PStr c))
      else l k)"
  by (auto simp: price_fields_def set_if_some_apply split: prod.splits option.splits)

lemma mileage_field_apply:
  "mileage_field l k =
     (if k = ''mileageKm'' then
        (case parse_mileage (text_of (dict_get l ''milage'')) of None \<Rightarrow> l k | Some p \<Rightarrow> Some (PInt p))
      else l k)"
  by (auto simp: mileage_field_def set_if_some_apply split: prod.splits option.splits)

lemma power_fields_apply:
  "power_fields l k =
     (if k = ''powerKW'' then
        (case fst (parse_power (text_of (dict_get l ''power''))) of None \<Rightarrow> l k | Some p \<Rightarrow> Some (PInt p))
      else if k = ''powerHP'' then
        (case snd (parse_power (text_of (dict_get l ''power''))) of None \<Rightarrow> l k | Some c \<Rightarrow> Some (PInt c))
      else l k)"
  by (auto simp: power_fields_def set_if_some_apply split: prod.splits option.splits)

lemma number_field_apply:
  "number_field (src, dest) l k =
     (if k = dest then
        (case extract_number (text_of (dict_get l src)) of None \<Rightarrow> l k | Some p \<Rightarrow> Some (PInt p))
      else l k)"
  by (auto simp: number_field_def set_if_some_apply split: prod.splits option.splits)

lemma feature_field_other: "k \<noteq> key \<Longrightarrow> feature_field repr key l k = l k"
  by (simp add: feature_field_def Let_def)

lemma fold_feature_other: "k \<notin> set ks \<Longrightarrow> fold (feature_field repr) ks l k = l k"
  by (induction ks arbitrary: l) (auto simp: feature_field_other)

lemma normalize_images_other: "k \<noteq> ''images'' \<Longrightarrow> normalize_images repr l k = l k"
  by (simp add: normalize_images_def)


lemma text_key_other: "k \<in> set text_keys \<Longrightarrow> k \<notin> set written_keys"
  by (auto simp: text_keys_def written_keys_def)

lemma normalize_text_key:
  assumes "k \<in> set text_keys"
  shows "normalize_listing repr r k = Some (of_opt (clean_text repr (dict_get r k)))"
proof -
  have "k \<notin> set written_keys" using assms by (rule text_key_other)
  then show ?thesis
    using assms
    by (simp add: written_keys_def normalize_listing_def normalize_images_other feature_field_other feature_keys_def
        number_pairs_def number_field_apply power_fields_apply mileage_field_apply
        price_fields_apply cleaned_apply)
qed

lemma cleaned_get:
  "k \<in> set text_keys \<Longrightarrow>
   text_of (dict_get (fold (clean_field repr) text_keys l) k) = clean_text repr (dict_get l k)"
  by (simp add: dict_get_def cleaned_apply text_of_of_opt)

lemma cleaned_get_price:
  "text_of (dict_get (fold (clean_field repr) text_keys l) ''price'') = clean_text repr (dict_get l ''price'')"
  by (rule cleaned_get) (simp add: text_keys_def)


lemmas stage_simps = normalize_listing_def normalize_images_other feature_field_other feature_keys_def
  number_pairs_def number_field_apply power_fields_apply mileage_field_apply price_fields_apply
  cleaned_apply dict_get_def text_of_of_opt

lemma text_keys_mem:
  "''price'' \<in> set text_keys" "''milage'' \<in> set text_keys" "''power'' \<in> set text_keys"
  "''seats'' \<in> set text_keys" "''engineSize'' \<in> set text_keys" "''gears'' \<in> set text_keys"
  by (simp_all add: text_keys_def)

lemma written_not_text_key: "k \<in> set written_keys \<Longrightarrow> k \<notin> set text_keys"
  using text_key_other by blast

lemma derived_not_text_key:
  "''rawPrice'' \<notin> set text_keys" "''currency'' \<notin> set text_keys"
  "''mileageKm'' \<notin> set text_keys" "''powerKW'' \<notin> set text_keys"
  "''powerHP'' \<notin> set text_keys" "''seatsNum'' \<notin> set text_keys"
  "''engineSizeCC'' \<notin> set text_keys" "''gearsNum'' \<notin> set text_keys"
  "''comfort'' \<notin> set text_keys" "''media'' \<notin> set text_keys"
  "''safety'' \<notin> set text_keys" "''extras'' \<notin> set text_keys"
  "''images'' \<notin> set text_keys"
  by (rule written_not_text_key, simp add: written_keys_def)+

lemma normalize_derived:
  "normalize_listing repr r ''rawPrice'' =
     (case fst (parse_price (clean_text repr (dict_get r ''price''))) of
        None \<Rightarrow> r ''rawPrice'' | Some p \<Rightarrow> Some (PInt p))"
  "normalize_listing repr r ''currency'' =
     (case snd (parse_price (clean_text repr (dict_get r ''price''))) of
        None \<Rightarrow> r ''currency'' | Some c \<Rightarrow> Some (PStr c))"
  "normalize_listing repr r ''mileageKm'' =
     (case parse_mileage (clean_text repr (dict_get r ''milage'')) of
        None \<Rightarrow> r ''mileageKm'' | Some p \<Rightarrow> Some (PInt p))"
  "normalize_listing repr r ''powerKW'' =
     (case fst (parse_power (clean_text repr (dict_get r ''power''))) of
        None \<Rightarrow> r ''powerKW'' | Some p \<Rightarrow> Some (PInt p))"
  "normalize_listing repr r ''powerHP'' =
     (case snd (parse_power (clean_text repr (dict_get r ''power''))) of
        None \<Rightarrow> r ''powerHP'' | Some p \<Rightarrow> Some (PInt p))"
  "normalize_listing repr r ''seatsNum'' =
     (case extract_number (clean_text repr (dict_get r ''seats'')) of
        None \<Rightarrow> r ''seatsNum'' | Some p \<Rightarrow> Some (PInt p))"
  "normalize_listing repr r ''engineSizeCC'' =
     (case extract_number (clean_text repr (dict_get r ''engineSize'')) of
        None \<Rightarrow> r ''engineSizeCC'' | Some p \<Rightarrow> Some (PInt p))"
  "normalize_listing repr r ''gearsNum'' =
     (case extract_number (clean_text repr (dict_get r ''gears'')) of
        None \<Rightarrow> r ''gearsNum'' | Some p \<Rightarrow> Some (PInt p))"
  by (simp_all add: stage_simps text_keys_mem derived_not_text_key split: option.splits)

lemma raw_record_no_derived:
  assumes "dom r \<subseteq> set raw_keys"
  shows "r ''rawPrice'' = None" "r ''currency'' = None" "r ''mileageKm'' = None"
    "r ''powerKW'' = None" "r ''powerHP'' = None" "r ''seatsNum'' = None"
    "r ''engineSizeCC'' = None" "r ''gearsNum'' = None"
proof -
  have "\<And>k. k \<notin> set raw_keys \<Longrightarrow> r k = None" using assms by auto
  moreover have "''rawPrice'' \<notin> set raw_keys" "''currency'' \<notin> set raw_keys"
    "''mileageKm'' \<notin> set raw_keys" "''powerKW'' \<notin> set raw_keys"
    "''powerHP'' \<notin> set raw_keys" "''seatsNum'' \<notin> set raw_keys"
    "''engineSizeCC'' \<notin> set raw_keys" "''gearsNum'' \<notin> set raw_keys"
    by (simp_all add: raw_keys_def derived_not_text_key feature_keys_def)
  ultimately show "r ''rawPrice'' = None" "r ''currency'' = None" "r ''mileageKm'' = None"
    "r ''powerKW'' = None" "r ''powerHP'' = None" "r ''seatsNum'' = None"
    "r ''engineSizeCC'' = None" "r ''gearsNum'' = None"
    by blast+
qed

lemma of_opt_cases: "of_opt x = PNone \<or> (\<exists>s. of_opt x = PStr s \<and> x = Some s)"
  by (cases x) auto

text \<open>
  Claim C7. In the normalized form of a raw record every text field is the cleaned raw
  text: it is \<open>None\<close>, or a string that is not empty, has no whitespace at its ends
  and has single spaces for its inner whitespace runs. Each derived field is present
  exactly when its parser finds a value in the cleaned text of its source field, and is
  that value; when the parser finds none the key is absent, not zero. For the price, the
  mileage and the three counts the value is the number written by the digits of the
  text, which exists when there are digits and no more of them than \<open>int\<close> converts.
\<close>

theorem normalize_listing_invariants:
  assumes "dom r \<subseteq> set raw_keys"
  shows
   "(\<forall>k \<in> set text_keys.
       normalize_listing repr r k = Some (of_opt (clean_text repr (dict_get r k))) \<and>
       (normalize_listing repr r k = Some PNone \<or>
        (\<exists>s. normalize_listing repr r k = Some (PStr s) \<and> tidy s))) \<and>
    normalize_listing repr r ''rawPrice'' =
      map_option PInt (Option.bind (clean_text repr (dict_get r ''price'')) number_of_digits) \<and>
    normalize_listing repr r ''currency'' =
      map_option PStr (Option.bind (clean_text repr (dict_get r ''price'')) currency_by_precedence) \<and>
    normalize_listing repr r ''mileageKm'' =
      map_option PInt (Option.bind (clean_text repr (dict_get r ''milage'')) number_of_digits) \<and>
    normalize_listing repr r ''powerKW'' =
      map_option PInt (fst (parse_power (clean_text repr (dict_get r ''power'')))) \<and>
    normalize_listing repr r ''powerHP'' =
      map_option PInt (snd (parse_power (clean_text repr (dict_get r ''power'')))) \<and>
    normalize_listing repr r ''seatsNum'' =
      map_option PInt (Option.bind (clean_text repr (dict_get r ''seats'')) number_of_digits) \<and>
    normalize_listing repr r ''engineSizeCC'' =
      map_option PInt (Option.bind (clean_text repr (dict_get r ''engineSize'')) number_of_digits) \<and>
    normalize_listing repr r ''gearsNum'' =
      map_option PInt (Option.bind (clean_text repr (dict_get r ''gears'')) number_of_digits)"
proof -
  have t: "\<forall>k \<in> set text_keys.
       normalize_listing repr r k = Some (of_opt (clean_text repr (dict_get r k))) \<and>
       (normalize_listing repr r k = Some PNone \<or>
        (\<exists>s. normalize_listing repr r k = Some (PStr s) \<and> tidy s))"
  proof
    fix k
    assume k: "k \<in> set text_keys"
    let ?c = "clean_text repr (dict_get r k)"
    have n: "normalize_listing repr r k = Some (of_opt ?c)" using k by (rule normalize_text_key)
    have "of_opt ?c = PNone \<or> (\<exists>s. of_opt ?c = PStr s \<and> tidy s)"
      using of_opt_cases[of ?c] clean_text_tidy[of repr "dict_get r k"] by auto
    then show "normalize_listing repr r k = Some (of_opt ?c) \<and>
       (normalize_listing repr r k = Some PNone \<or>
        (\<exists>s. normalize_listing repr r k = Some (PStr s) \<and> tidy s))"
      using n by simp
  qed
  have pp: "\<And>t. parse_price t = (Option.bind t number_of_digits, Option.bind t currency_by_precedence)"
  proof -
    fix t show "parse_price t = (Option.bind t number_of_digits, Option.bind t currency_by_precedence)"
      by (cases t) (simp_all add: parse_price_general, simp add: parse_price_def)
  qed
  note d = raw_record_no_derived[OF assms]
  have "normalize_listing repr r ''rawPrice'' =
      map_option PInt (Option.bind (clean_text repr (dict_get r ''price'')) number_of_digits)"
    by (simp add: normalize_derived(1) pp d split: option.splits)
  moreover have "normalize_listing repr r ''currency'' =
      map_option PStr (Option.bind (clean_text repr (dict_get r ''price'')) currency_by_precedence)"
    by (simp add: normalize_derived(2) pp d split: option.splits)
  moreover have "normalize_listing repr r ''mileageKm'' =
      map_option PInt (Option.bind (clean_text repr (dict_get r ''milage'')) number_of_digits)"
    by (simp add: normalize_derived(3) parse_mileage_def extract_number_general d split: option.splits)
  moreover have "normalize_listing repr r ''powerKW'' =
      map_option PInt (fst (parse_power (clean_text repr (dict_get r ''power''))))"
    by (simp add: normalize_derived(4) d split: option.splits)
  moreover have "normalize_listing repr r ''powerHP'' =
      map_option PInt (snd (parse_power (clean_text repr (dict_get r ''power''))))"
    by (simp add: normalize_derived(5) d split: option.splits)
  moreover have "normalize_listing repr r ''seatsNum'' =
      map_option PInt (Option.bind (clean_text repr (dict_get r ''seats'')) number_of_digits)"
    by (simp add: normalize_derived(6) extract_number_general d split: option.splits)
  moreover have "normalize_listing repr r ''engineSizeCC'' =
      map_option PInt (Option.bind (clean_text repr (dict_get r ''engineSize'')) number_of_digits)"
    by (simp add: normalize_derived(7) extract_number_general d split: option.splits)
  moreover have "normalize_listing repr r ''gearsNum'' =
      map_option PInt (Option.bind (clean_text repr (dict_get r ''gears'')) number_of_digits)"
    by (simp add: normalize_derived(8) extract_number_general d split: option.splits)
  ultimately show ?thesis using t by blast
qed

lemmas eval_simps = ustr_def is_space_def strip_def clean_text_def py_str_def dict_get_def
  is_decimal_low is_decimal_euro euro_sign_def upper_def upper_cp_low upper_cp_euro
  number_of_digits_def int_max_str_digits_def decimal_number_def digit_of_low

lemma ex_title: "clean_text (\<lambda>_. []) (dict_get example_raw ''title'') = Some (ustr ''BMW X5'')"
  by (simp add: example_raw_def eval_simps)

lemma ex_price: "clean_text (\<lambda>_. []) (dict_get example_raw ''price'') = Some (euro_sign # ustr '' 31,980'')"
  by (simp add: example_raw_def eval_simps)

lemma ex_power: "clean_text (\<lambda>_. []) (dict_get example_raw ''power'') = Some (ustr ''240 kW (326 hp)'')"
  by (simp add: example_raw_def eval_simps)

lemma ex_seats: "clean_text (\<lambda>_. []) (dict_get example_raw ''seats'') = Some (ustr ''five'')"
  by (simp add: example_raw_def eval_simps)

lemma ex_milage: "clean_text (\<lambda>_. []) (dict_get example_raw ''milage'') = None"
  by (simp add: example_raw_def eval_simps)

lemma ex_dom: "dom example_raw \<subseteq> set raw_keys"
  by (simp add: example_raw_def raw_keys_def text_keys_def feature_keys_def)

theorem normalize_listing_invariants_witness:
  "dom example_raw \<subseteq> set raw_keys \<and>
   normalize_listing (\<lambda>_. []) example_raw ''title'' = Some (PStr (ustr ''BMW X5'')) \<and>
   tidy (ustr ''BMW X5'') \<and>
   normalize_listing (\<lambda>_. []) example_raw ''milage'' = Some PNone \<and>
   normalize_listing (\<lambda>_. []) example_raw ''rawPrice'' = Some (PInt 31980) \<and>
   normalize_listing (\<lambda>_. []) example_raw ''currency'' = Some (PStr (ustr ''EUR'')) \<and>
   normalize_listing (\<lambda>_. []) example_raw ''mileageKm'' = None \<and>
   normalize_listing (\<lambda>_. []) example_raw ''powerKW'' = Some (PInt 240) \<and>
   normalize_listing (\<lambda>_. []) example_raw ''powerHP'' = Some (PInt 326) \<and>
   normalize_listing (\<lambda>_. []) example_raw ''seatsNum'' = None"
proof -
  note th = normalize_listing_invariants[OF ex_dom, of "\<lambda>_. []"]
  have m: "''title'' \<in> set text_keys" "''milage'' \<in> set text_keys" by (simp_all add: text_keys_def)
  from th have a: "\<forall>k \<in> set text_keys.
       normalize_listing (\<lambda>_. []) example_raw k = Some (of_opt (clean_text (\<lambda>_. []) (dict_get example_raw k))) \<and>
       (normalize_listing (\<lambda>_. []) example_raw k = Some PNone \<or>
        (\<exists>s. normalize_listing (\<lambda>_. []) example_raw k = Some (PStr s) \<and> tidy s))"
    by (rule conjunct1)
  have t1: "normalize_listing (\<lambda>_. []) example_raw ''title'' = Some (PStr (ustr ''BMW X5''))"
    using bspec[OF a m(1)] by (simp add: ex_title)
  have t2: "tidy (ustr ''BMW X5'')" using bspec[OF a m(1)] t1 by auto
  have t3: "normalize_listing (\<lambda>_. []) example_raw ''milage'' = Some PNone"
    using bspec[OF a m(2)] by (simp add: ex_milage)
  have p: "parse_power (Some (ustr ''240 kW (326 hp)'')) = (Some 240, Some 326)"
    by (simp add: parse_power_def ustr_def match_kW match_hp is_decimal_low is_space_def
        unit_kW_def unit_hp_def py_int_def int_max_str_digits_def decimal_number_def
        digit_of_low)
  have c: "currency_by_precedence (euro_sign # ustr '' 31,980'') = Some (ustr ''EUR'')"
    by (simp add: currency_by_precedence_def)
  have n: "number_of_digits (euro_sign # ustr '' 31,980'') = Some 31980"
    "number_of_digits (ustr ''five'') = None"
    by (simp_all add: eval_simps)
  show ?thesis
    using th t1 t2 t3 ex_dom by (simp add: ex_price ex_power ex_seats ex_milage p c n)
qed

section \<open>List fields and images\<close>

lemma fold_feature_field:
  "distinct ks \<Longrightarrow>
   fold (feature_field repr) ks l k =
     (if k \<in> set ks then Some (feature_value repr (dict_get l k)) else l k)"
proof (induction ks arbitrary: l)
  case Nil
  then show ?case by simp
next
  case (Cons a ks)
  then show ?case by (auto simp: feature_field_def dict_get_def)
qed

lemma feature_not_text_key: "k \<in> set feature_keys \<Longrightarrow> k \<notin> set text_keys"
  using derived_not_text_key by (auto simp: feature_keys_def)

lemma normalize_feature_key:
  assumes "k \<in> set feature_keys"
  shows "normalize_listing repr r k = Some (feature_value repr (dict_get r k))"
proof -
  have d: "distinct feature_keys" by (simp add: feature_keys_def)
  have o: "k \<noteq> ''images''" "k \<noteq> ''rawPrice''" "k \<noteq> ''currency''" "k \<noteq> ''mileageKm''"
    "k \<noteq> ''powerKW''" "k \<noteq> ''powerHP''" "k \<noteq> ''seatsNum''" "k \<noteq> ''engineSizeCC''"
    "k \<noteq> ''gearsNum''"
    using assms by (auto simp: feature_keys_def)
  show ?thesis
    using assms o feature_not_text_key[OF assms]
    by (simp add: normalize_listing_def normalize_images_other fold_feature_field[OF d]
        number_pairs_def number_field_apply power_fields_apply mileage_field_apply
        price_fields_apply cleaned_apply dict_get_def)
qed

lemma normalize_images_key:
  "normalize_listing repr r ''images'' = Some (images_value repr (dict_get r ''images''))"
  by (simp add: normalize_listing_def normalize_images_def feature_field_other feature_keys_def
      number_pairs_def number_field_apply power_fields_apply mileage_field_apply
      price_fields_apply cleaned_apply dict_get_def derived_not_text_key)

lemma dedupe_images_keep_first:
  "dedupe_images repr vs (set acc) acc =
     acc @ filter (\<lambda>x. x \<notin> set acc) (keep_first (List.map_filter (clean_text repr) vs))"
proof (induction vs arbitrary: acc)
  case Nil
  then show ?case by simp
next
  case (Cons v vs)
  show ?case
  proof (cases "clean_text repr v")
    case None
    then show ?thesis using Cons.IH[of acc] by simp
  next
    case (Some i)
    let ?ys = "keep_first (List.map_filter (clean_text repr) vs)"
    show ?thesis
    proof (cases "i \<in> set acc")
      case True
      have "filter (\<lambda>x. x \<notin> set acc) (removeAll i ?ys) = filter (\<lambda>x. x \<notin> set acc) ?ys"
        unfolding removeAll_filter_not_eq filter_filter
        using True by (intro filter_cong) auto
      then show ?thesis using Some True Cons.IH[of acc] by simp
    next
      case False
      have "filter (\<lambda>x. x \<notin> set acc) (removeAll i ?ys) = filter (\<lambda>x. x \<notin> set (acc @ [i])) ?ys"
        unfolding removeAll_filter_not_eq filter_filter
        by (intro filter_cong) auto
      then show ?thesis using Some False Cons.IH[of "acc @ [i]"] by simp
    qed
  qed
qed

lemma keep_first_set: "set (keep_first xs) = set xs"
  by (induction xs) auto

lemma keep_first_distinct: "distinct (keep_first xs)"
  by (induction xs) (auto simp: distinct_removeAll)

text \<open>
  Claim C8. A feature field that holds a string is split at \<open>;\<close> and \<open>,\<close>, its
  pieces are cleaned and the empty ones dropped; one that holds a list is cleaned element
  by element, empty elements are dropped and duplicates stay; a missing one becomes the
  empty list. The image list is cleaned and, in addition, keeps only the first occurrence
  of each image, in order.
\<close>

theorem list_field_normalization:
  "(\<forall>k \<in> set feature_keys.
      (\<forall>s. dict_get r k = PStr s \<longrightarrow>
         normalize_listing repr r k =
           Some (PList (map PStr (List.map_filter (\<lambda>p. clean_text repr (PStr p)) (split_seps s))))) \<and>
      (\<forall>vs. dict_get r k = PList vs \<longrightarrow>
         normalize_listing repr r k =
           Some (PList (map PStr (List.map_filter (clean_text repr) vs)))) \<and>
      (dict_get r k = PNone \<longrightarrow> normalize_listing repr r k = Some (PList []))) \<and>
   (\<forall>vs. dict_get r ''images'' = PList vs \<longrightarrow>
      normalize_listing repr r ''images'' =
        Some (PList (map PStr (keep_first (List.map_filter (clean_text repr) vs)))) \<and>
      distinct (keep_first (List.map_filter (clean_text repr) vs)))"
proof -
  have f: "\<forall>k \<in> set feature_keys.
      (\<forall>s. dict_get r k = PStr s \<longrightarrow>
         normalize_listing repr r k =
           Some (PList (map PStr (List.map_filter (\<lambda>p. clean_text repr (PStr p)) (split_seps s))))) \<and>
      (\<forall>vs. dict_get r k = PList vs \<longrightarrow>
         normalize_listing repr r k =
           Some (PList (map PStr (List.map_filter (clean_text repr) vs)))) \<and>
      (dict_get r k = PNone \<longrightarrow> normalize_listing repr r k = Some (PList []))"
    by (simp add: normalize_feature_key feature_value_def)
  have i: "\<forall>vs. dict_get r ''images'' = PList vs \<longrightarrow>
      normalize_listing repr r ''images'' =
        Some (PList (map PStr (keep_first (List.map_filter (clean_text repr) vs)))) \<and>
      distinct (keep_first (List.map_filter (clean_text repr) vs))"
  proof (intro allI impI)
    fix vs
    assume v: "dict_get r ''images'' = PList vs"
    have "dedupe_images repr vs {} [] = keep_first (List.map_filter (clean_text repr) vs)"
      using dedupe_images_keep_first[of repr vs "[]"] by simp
    then have "images_value repr (PList vs) =
        PList (map PStr (keep_first (List.map_filter (clean_text repr) vs)))"
      by (cases vs) (simp_all add: images_value_def)
    then show "normalize_listing repr r ''images'' =
        Some (PList (map PStr (keep_first (List.map_filter (clean_text repr) vs)))) \<and>
      distinct (keep_first (List.map_filter (clean_text repr) vs))"
      using v by (simp add: normalize_images_key keep_first_distinct)
  qed
  show ?thesis using f i by blast
qed

theorem list_field_normalization_witness:
  "normalize_listing (\<lambda>_. []) example_raw ''comfort'' =
     Some (PList [PStr (ustr ''ABS''), PStr (ustr ''Airbag''), PStr (ustr ''Cruise control'')]) \<and>
   normalize_listing (\<lambda>_. []) example_raw ''media'' =
     Some (PList [PStr (ustr ''Radio''), PStr (ustr ''Radio'')]) \<and>
   normalize_listing (\<lambda>_. []) example_raw ''safety'' = Some (PList []) \<and>
   normalize_listing (\<lambda>_. []) example_raw ''images'' =
     Some (PList [PStr (ustr ''a.jpg''), PStr (ustr ''b.jpg'')])"
proof -
  note th = list_field_normalization[of example_raw "\<lambda>_. []"]
  have k: "''comfort'' \<in> set feature_keys" "''media'' \<in> set feature_keys"
    "''safety'' \<in> set feature_keys"
    by (simp_all add: feature_keys_def)
  have c: "dict_get example_raw ''comfort'' = PStr (ustr ''ABS; Airbag,Cruise control'')"
    and m: "dict_get example_raw ''media'' =
      PList [PStr (ustr ''Radio''), PStr (ustr ''Radio''), PStr (ustr '' '')]"
    and s: "dict_get example_raw ''safety'' = PNone"
    and i: "dict_get example_raw ''images'' =
      PList [PStr (ustr ''a.jpg''), PStr (ustr ''a.jpg''), PStr (ustr ''b.jpg'')]"
    by (simp_all add: example_raw_def dict_get_def)
  have 1: "normalize_listing (\<lambda>_. []) example_raw ''comfort'' =
     Some (PList [PStr (ustr ''ABS''), PStr (ustr ''Airbag''), PStr (ustr ''Cruise control'')])"
    using th k(1) c by (simp add: ustr_def clean_text_def strip_def py_str_def is_space_def)
  have 2: "normalize_listing (\<lambda>_. []) example_raw ''media'' =
     Some (PList [PStr (ustr ''Radio''), PStr (ustr ''Radio'')])"
    using th k(2) m by (simp add: ustr_def clean_text_def strip_def py_str_def is_space_def)
  have 3: "normalize_listing (\<lambda>_. []) example_raw ''safety'' = Some (PList [])"
    using th k(3) s by simp
  have 4: "normalize_listing (\<lambda>_. []) example_raw ''images'' =
     Some (PList [PStr (ustr ''a.jpg''), PStr (ustr ''b.jpg'')])"
    using th i by (simp add: ustr_def clean_text_def strip_def py_str_def is_space_def)
  show ?thesis using 1 2 3 4 by simp
qed

section \<open>The dealer summary\<close>

lemma summary_step_inv:
  assumes "summary_inv pre st" and "summary_step rec st = Inr st'"
  shows "summary_inv (pre @ [rec]) st'"
proof -
  obtain summary counter where st: "st = (summary, counter)" by (cases st)
  from assms(2) st obtain n where n: "dealer_name_of rec = Inr n"
    by (auto simp: summary_step_def split: sum.splits)
  let ?c = "counter(n := counter n + 1)"
  let ?e = "case summary n of
              None \<Rightarrow> \<lparr>dealerName = n, location = dict_get rec ''location'',
                        dealerRatings = dict_get rec ''dealerRatings'', listingCount = 0\<rparr>
            | Some e \<Rightarrow> e"
  have st': "st' = (summary(n \<mapsto> ?e\<lparr>listingCount := ?c n\<rparr>), ?c)"
    using assms(2) st n by (simp add: summary_step_def Let_def)
  have inv: "\<And>d. counter d = int (length (filter (\<lambda>r. dealer_name_of r = Inr d) pre))"
    "\<And>d. summary d = entry_of d (filter (\<lambda>r. dealer_name_of r = Inr d) pre)"
    using assms(1) st by (auto simp: summary_inv_def)
  show ?thesis
    unfolding summary_inv_def
  proof (intro allI conjI)
    fix d
    show "snd st' d = int (length (filter (\<lambda>r. dealer_name_of r = Inr d) (pre @ [rec])))"
      using st' inv(1) n by auto
    show "fst st' d = entry_of d (filter (\<lambda>r. dealer_name_of r = Inr d) (pre @ [rec]))"
    proof (cases "d = n")
      case False
      then show ?thesis using st' inv(2) n by auto
    next
      case True
      show ?thesis
      proof (cases "filter (\<lambda>r. dealer_name_of r = Inr n) pre")
        case Nil
        then show ?thesis using True st' inv(1)[of n] inv(2)[of n] n
          by (simp add: entry_of_def)
      next
        case (Cons r rs)
        then show ?thesis using True st' inv(1)[of n] inv(2)[of n] n
          by (simp add: entry_of_def)
      qed
    qed
  qed
qed

lemma build_loop_inv:
  "summary_inv pre st \<Longrightarrow> build_loop recs st = Inr st' \<Longrightarrow> summary_inv (pre @ recs) st'"
proof (induction recs arbitrary: pre st)
  case Nil
  then show ?case by simp
next
  case (Cons r recs)
  from Cons.prems(2) obtain st1 where s: "summary_step r st = Inr st1"
    and b: "build_loop recs st1 = Inr st'"
    by (auto split: sum.splits)
  have "summary_inv (pre @ [r]) st1" using summary_step_inv[OF Cons.prems(1) s] .
  then have "summary_inv ((pre @ [r]) @ recs) st'" using Cons.IH b by blast
  then show ?case by simp
qed

lemma build_loop_returns:
  "\<forall>r \<in> set recs. \<exists>n. dealer_name_of r = Inr n \<Longrightarrow> \<exists>st'. build_loop recs st = Inr st'"
proof (induction recs arbitrary: st)
  case Nil
  then show ?case by simp
next
  case (Cons r recs)
  then obtain n where "dealer_name_of r = Inr n" by auto
  then obtain st1 where "summary_step r st = Inr st1"
    by (cases st) (auto simp: summary_step_def Let_def)
  then show ?case using Cons by auto
qed

lemma build_summary_entries:
  assumes "build_summary recs = Inr summary"
  shows "summary d = entry_of d (filter (\<lambda>r. dealer_name_of r = Inr d) recs)"
proof -
  from assms obtain st where b: "build_loop recs (Map.empty, \<lambda>_. 0) = Inr st" and s: "summary = fst st"
    by (auto simp: build_summary_def split: sum.splits)
  have "summary_inv [] (Map.empty, \<lambda>_. 0)" by (simp add: summary_inv_def entry_of_def)
  then have "summary_inv ([] @ recs) st" using b by (rule build_loop_inv)
  then show ?thesis using s by (simp add: summary_inv_def)
qed

lemma build_summary_total:
  assumes "\<forall>r \<in> set recs. \<exists>n. dealer_name_of r = Inr n"
  shows "\<exists>summary. build_summary recs = Inr summary \<and>
     (\<forall>d. summary d = entry_of d (filter (\<lambda>r. dealer_name_of r = Inr d) recs))"
proof -
  obtain st where "build_loop recs (Map.empty, \<lambda>_. 0) = Inr st"
    using build_loop_returns[OF assms] by blast
  then have "build_summary recs = Inr (fst st)" by (simp add: build_summary_def)
  then show ?thesis using build_summary_entries by blast
qed

lemma example_names:
  "dealer_name_of rec_A_berlin = Inr (ustr ''A'')"
  "dealer_name_of rec_A_bonn = Inr (ustr ''A'')"
  "dealer_name_of rec_blank = Inr (ustr ''Unknown dealer'')"
  by (simp_all add: dealer_name_of_def rec_A_berlin_def rec_A_bonn_def rec_blank_def dict_get_def
      ustr_def strip_def is_space_def)

text \<open>
  Claim C1, with its last clause amended. When no record makes \<open>strip\<close> fail, the
  summary has an entry for exactly the dealer names that occur (the stripped name, or
  "Unknown dealer" for a missing or blank one); the \<open>listingCount\<close> of an entry is
  the number of records with that name, and its \<open>location\<close> and \<open>dealerRatings\<close>
  are those of the first record with that name: \<open>setdefault\<close> keeps the entry that
  is already there.
\<close>

theorem dealer_summary_first_wins:
  assumes "\<forall>r \<in> set recs. \<exists>n. dealer_name_of r = Inr n"
  shows "\<exists>summary. build_summary recs = Inr summary \<and>
     (\<forall>d. summary d = entry_of d (filter (\<lambda>r. dealer_name_of r = Inr d) recs))"
  using assms by (rule build_summary_total)

theorem dealer_summary_first_wins_witness:
  "dealer_name_of rec_A_berlin = Inr (ustr ''A'') \<and>
   dealer_name_of rec_A_bonn = Inr (ustr ''A'') \<and>
   dealer_name_of rec_blank = Inr (ustr ''Unknown dealer'') \<and>
   summary_lookup (build_summary [rec_A_berlin, rec_A_bonn, rec_blank]) (ustr ''A'') =
     Some \<lparr>dealerName = ustr ''A'', location = PStr (ustr ''Berlin''), dealerRatings = PNone,
           listingCount = 2\<rparr> \<and>
   summary_lookup (build_summary [rec_A_berlin, rec_A_bonn, rec_blank]) (ustr ''Unknown dealer'') =
     Some \<lparr>dealerName = ustr ''Unknown dealer'', location = PNone, dealerRatings = PNone,
           listingCount = 1\<rparr> \<and>
   summary_lookup (build_summary [rec_A_berlin, rec_A_bonn, rec_blank]) (ustr ''B'') = None"
proof -
  have h: "\<forall>r \<in> set [rec_A_berlin, rec_A_bonn, rec_blank]. \<exists>n. dealer_name_of r = Inr n"
    by (simp add: example_names)
  obtain summary where s: "build_summary [rec_A_berlin, rec_A_bonn, rec_blank] = Inr summary"
    and e: "\<And>d. summary d =
      entry_of d (filter (\<lambda>r. dealer_name_of r = Inr d) [rec_A_berlin, rec_A_bonn, rec_blank])"
    using dealer_summary_first_wins[OF h] by blast
  have ne: "ustr ''A'' \<noteq> ustr ''Unknown dealer''" "ustr ''B'' \<noteq> ustr ''A''"
    "ustr ''B'' \<noteq> ustr ''Unknown dealer''" "ustr ''Unknown dealer'' \<noteq> ustr ''A''"
    by (simp_all add: ustr_def)
  have g: "dict_get rec_A_berlin ''location'' = PStr (ustr ''Berlin'')"
    "dict_get rec_A_berlin ''dealerRatings'' = PNone"
    "dict_get rec_blank ''location'' = PNone" "dict_get rec_blank ''dealerRatings'' = PNone"
    by (simp_all add: rec_A_berlin_def rec_blank_def dict_get_def)
  show ?thesis
    using e[of "ustr ''A''"] e[of "ustr ''Unknown dealer''"] e[of "ustr ''B''"] ne
    by (simp add: s summary_lookup_def example_names entry_of_def g)
qed

text \<open>
  Claim C1 as it was stated takes \<open>location\<close> from the last record of a dealer. Two
  records of dealer A, the first in Berlin and the last in Bonn, give an entry in Berlin.
\<close>

theorem dealer_summary_last_counterexample:
  "dealer_name_of rec_A_berlin = Inr (ustr ''A'') \<and>
   dealer_name_of rec_A_bonn = Inr (ustr ''A'') \<and>
   dict_get rec_A_bonn ''location'' = PStr (ustr ''Bonn'') \<and>
   map_option location (summary_lookup (build_summary [rec_A_berlin, rec_A_bonn]) (ustr ''A'')) =
     Some (PStr (ustr ''Berlin'')) \<and>
   map_option location (summary_lookup (build_summary [rec_A_berlin, rec_A_bonn]) (ustr ''A'')) \<noteq>
     Some (dict_get (last [rec_A_berlin, rec_A_bonn]) ''location'')"
proof -
  have h: "\<forall>r \<in> set [rec_A_berlin, rec_A_bonn]. \<exists>n. dealer_name_of r = Inr n"
    by (simp add: example_names)
  obtain summary where s: "build_summary [rec_A_berlin, rec_A_bonn] = Inr summary"
    and e: "\<And>d. summary d =
      entry_of d (filter (\<lambda>r. dealer_name_of r = Inr d) [rec_A_berlin, rec_A_bonn])"
    using build_summary_total[OF h] by blast
  have g: "dict_get rec_A_berlin ''location'' = PStr (ustr ''Berlin'')"
    "dict_get rec_A_bonn ''location'' = PStr (ustr ''Bonn'')"
    by (simp_all add: rec_A_berlin_def rec_A_bonn_def dict_get_def)
  have ne: "ustr ''Berlin'' \<noteq> ustr ''Bonn''" by (simp add: ustr_def)
  show ?thesis
    using e[of "ustr ''A''"] ne
    by (simp add: s summary_lookup_def example_names entry_of_def g)
qed

section \<open>Preparing the URL list\<close>

lemma append_new_distinct: "distinct acc \<Longrightarrow> distinct (append_new acc us)"
  by (induction us arbitrary: acc) auto

lemma append_new_set: "set (append_new acc us) = set acc \<union> set us"
  by (induction us arbitrary: acc) auto

lemma search_loop_terminates:
  assumes "finite {u. fetch env u \<noteq> None}"
  shows "\<exists>r. search_loop env m acc visited next_url tr = Some r"
proof (induction "card ({u. fetch env u \<noteq> None} - visited)"
    arbitrary: acc visited next_url tr rule: less_induct)
  case less
  let ?F = "{u. fetch env u \<noteq> None}"
  show ?case
  proof (cases next_url)
    case None
    then show ?thesis by (subst search_loop.simps) simp
  next
    case (Some url)
    show ?thesis
    proof (cases "url = [] \<or> \<not> int (length acc) < m \<or> url \<in> visited")
      case True
      then show ?thesis using Some by (subst search_loop.simps) auto
    next
      case False
      show ?thesis
      proof (cases "fetch env url")
        case None
        then show ?thesis using Some False by (subst search_loop.simps) auto
      next
        case (Some html)
        then have "url \<in> ?F - visited" using False by simp
        then have "card (?F - insert url visited) < card (?F - visited)"
          using assms by (metis Diff_insert card_Diff1_less finite_Diff)
        then have ih: "\<And>acc' next' tr'.
            \<exists>r. search_loop env m acc' (insert url visited) next' tr' = Some r"
          using less by blast
        show ?thesis
        proof (cases "parse_search_page env html url")
          case (Inl e)
          then show ?thesis
            using \<open>next_url = Some url\<close> False Some by (subst search_loop.simps) auto
        next
          case (Inr page)
          obtain page_urls next' where p: "page = (page_urls, next')" by (cases page)
          show ?thesis
            using \<open>next_url = Some url\<close> False Some Inr p
              ih[of "append_new acc page_urls" next' "tr @ [url]"]
            by (subst search_loop.simps) auto
        qed
      qed
    qed
  qed
qed

lemma search_loop_quiet:
  assumes "search_loop env m acc visited next_url tr = Some y"
  shows "never_raises env \<longrightarrow> (\<exists>urls. fst y = Inr urls)"
proof (rule search_loop.raw_induct[OF _ assms])
  fix f :: "crawl_env \<Rightarrow> int \<Rightarrow> ustr list \<Rightarrow> ustr set \<Rightarrow> ustr option \<Rightarrow> ustr list \<Rightarrow>
   ((exn + ustr list) \<times> ustr list) option"
  fix env m acc visited next_url tr y
  assume ih: "\<And>env m acc visited next_url tr y. f env m acc visited next_url tr = Some y \<Longrightarrow>
    never_raises env \<longrightarrow> (\<exists>urls. fst y = Inr urls)"
  assume body: "(case next_url of
        None \<Rightarrow> Some (Inr acc, tr)
      | Some url \<Rightarrow>
          if url = [] \<or> \<not> int (length acc) < m
          then Some (Inr acc, tr)
          else if url \<in> visited then Some (Inr acc, tr)
          else
            (case fetch env url of
               None \<Rightarrow> Some (Inr acc, tr @ [url])
             | Some html \<Rightarrow>
                 if html = [] then Some (Inr acc, tr @ [url])
                 else
                   (case parse_search_page env html url of
                      Inl e \<Rightarrow> Some (Inl e, tr @ [url])
                    | Inr (page_urls, next_url') \<Rightarrow>
                        if next_url' = None \<or> next_url' = Some []
                        then Some (Inr (append_new acc page_urls), tr @ [url])
                        else f env m (append_new acc page_urls)
                               (insert url visited) next_url' (tr @ [url])))) = Some y"
  show "never_raises env \<longrightarrow> (\<exists>urls. fst y = Inr urls)"
  proof
    assume q: "never_raises env"
    have p: "\<And>html url e. parse_search_page env html url \<noteq> Inl e"
    proof -
      fix html url e
      obtain r where "parse_search_page env html url = Inr r"
        using q unfolding never_raises_def by blast
      then show "parse_search_page env html url \<noteq> Inl e" by simp
    qed
    show "\<exists>urls. fst y = Inr urls"
      using body ih q
      by (auto simp: p split: option.splits if_splits sum.splits prod.splits)
  qed
qed

lemma prepare_loop_terminates:
  assumes "finite {u. fetch env u \<noteq> None}"
  shows "\<exists>r. prepare_loop env m seeds acc tr = Some r"
proof (induction seeds arbitrary: acc tr)
  case Nil
  then show ?case by simp
next
  case (Cons seed seeds)
  obtain r where c: "collect_listing_urls_from_search env m (strip seed) tr = Some r"
    using search_loop_terminates[OF assms, of m "[]" "{}" "Some (strip seed)" tr]
    by (auto simp: collect_listing_urls_from_search_def)
  obtain outcome tr' where r: "r = (outcome, tr')" by (cases r)
  show ?case
  proof (cases outcome)
    case (Inl e)
    then show ?thesis using Cons[of acc tr] Cons[of _ tr] c r
      by (auto simp: Let_def split: sum.splits)
  next
    case (Inr urls)
    then show ?thesis
      using Cons[of acc tr] Cons[of _ tr] Cons[of "append_new acc urls" tr'] c r
      by (auto simp: Let_def split: sum.splits)
  qed
qed

lemma prepare_loop_quiet:
  assumes q: "never_raises env"
  shows "prepare_loop env m seeds acc tr = Some (outcome, tr') \<Longrightarrow> \<exists>urls. outcome = Inr urls"
proof (induction seeds arbitrary: acc tr)
  case Nil
  then show ?case by auto
next
  case (Cons seed seeds)
  let ?s = "strip seed"
  obtain p where p: "url_path env ?s = Inr p" using q unfolding never_raises_def by blast
  then obtain d where d: "is_detail_url env ?s = Inr d" by (simp add: is_detail_url_def Let_def)
  show ?case
  proof (cases "?s = [] \<or> d")
    case True
    then show ?thesis using Cons d by (auto simp: Let_def split: if_splits)
  next
    case False
    then obtain o1 t1 where c: "collect_listing_urls_from_search env m ?s tr = Some (o1, t1)"
      using Cons.prems d by (auto simp: Let_def split: option.splits)
    then obtain us where us: "o1 = Inr us"
      using search_loop_quiet[of env m "[]" "{}" "Some ?s" tr "(o1, t1)"] q
      by (auto simp: collect_listing_urls_from_search_def)
    show ?thesis
      using Cons.prems Cons.IH[of "append_new acc us" t1] False d c us
      by (auto simp: Let_def split: if_splits)
  qed
qed

lemma prepare_loop_distinct:
  "distinct acc \<Longrightarrow> prepare_loop env m seeds acc tr = Some (Inr urls, tr') \<Longrightarrow> distinct urls"
proof (induction seeds arbitrary: acc tr)
  case Nil
  then show ?case by simp
next
  case (Cons seed seeds)
  let ?s = "strip seed"
  show ?case
  proof (cases "?s = []")
    case True
    then show ?thesis using Cons by (simp add: Let_def)
  next
    case False
    then obtain d where d: "is_detail_url env ?s = Inr d"
      using Cons.prems(2) by (auto simp: Let_def split: sum.splits)
    show ?thesis
    proof (cases d)
      case True
      let ?acc = "if ?s \<in> set acc then acc else acc @ [?s]"
      have "distinct ?acc" using Cons.prems(1) by simp
      moreover have "prepare_loop env m seeds ?acc tr = Some (Inr urls, tr')"
        using Cons.prems(2) False d True by (simp add: Let_def)
      ultimately show ?thesis using Cons.IH by blast
    next
      case nd: False
      then obtain us t where c: "collect_listing_urls_from_search env m ?s tr = Some (Inr us, t)"
        using Cons.prems(2) False d by (auto simp: Let_def split: option.splits sum.splits)
      have da: "distinct (append_new acc us)" using Cons.prems(1) by (rule append_new_distinct)
      show ?thesis
      proof (cases "m \<le> int (length (append_new acc us))")
        case True
        then have "urls = append_new acc us"
          using Cons.prems(2) False d nd c by (simp add: Let_def)
        then show ?thesis using da by simp
      next
        case nm: False
        then have "prepare_loop env m seeds (append_new acc us) t = Some (Inr urls, tr')"
          using Cons.prems(2) False d nd c by (simp add: Let_def)
        then show ?thesis using Cons.IH da by blast
      qed
    qed
  qed
qed

lemma prepare_urls_distinct:
  assumes "prepare_listing_urls env N seeds = Some (Inr urls, tr)"
  shows "distinct urls"
proof -
  from assms obtain us where p: "prepare_loop env N seeds [] [] = Some (Inr us, tr)"
    and u: "urls = (if N < int (length us) then py_slice_to N us else us)"
    by (auto simp: prepare_listing_urls_def split: option.splits sum.splits)
  have "distinct us" using prepare_loop_distinct[OF _ p] by simp
  then show ?thesis using u by (auto simp: py_slice_to_def)
qed

lemma prepare_distinct:
  assumes "0 \<le> N" and "prepare_listing_urls env N seeds = Some (Inr urls, tr)"
  shows "int (length urls) \<le> N \<and> distinct urls"
proof -
  from assms(2) obtain us where p: "prepare_loop env N seeds [] [] = Some (Inr us, tr)"
    and u: "urls = (if N < int (length us) then py_slice_to N us else us)"
    by (auto simp: prepare_listing_urls_def split: option.splits sum.splits)
  have "distinct us" using prepare_loop_distinct[OF _ p] by simp
  then show ?thesis using u assms(1) by (auto simp: py_slice_to_def)
qed

lemma prepare_terminates:
  assumes "finite {u. fetch env u \<noteq> None}"
  shows "\<exists>outcome tr. prepare_listing_urls env N seeds = Some (outcome, tr)"
proof -
  obtain r where "prepare_loop env N seeds [] [] = Some r"
    using prepare_loop_terminates[OF assms] by blast
  then show ?thesis
    by (cases r) (auto simp: prepare_listing_urls_def split: sum.splits)
qed

lemma prepare_quiet:
  assumes "never_raises env" and "prepare_listing_urls env N seeds = Some (outcome, tr)"
  shows "\<exists>urls. outcome = Inr urls"
proof -
  from assms(2) obtain o1 where p: "prepare_loop env N seeds [] [] = Some (o1, tr)"
    by (auto simp: prepare_listing_urls_def split: option.splits sum.splits)
  then obtain us where "o1 = Inr us" using prepare_loop_quiet[OF assms(1)] by blast
  then show ?thesis using assms(2) p by (auto simp: prepare_listing_urls_def)
qed

lemma shop_urls:
  "strip (ustr ''http://x/s'') = ustr ''http://x/s''"
  "strip (ustr ''http://x/t'') = ustr ''http://x/t''"
  "strip (ustr ''http://x/offers/1'') = ustr ''http://x/offers/1''"
  "is_detail_url env_shop (ustr ''http://x/s'') = Inr False"
  "is_detail_url env_shop (ustr ''http://x/t'') = Inr False"
  "is_detail_url env_shop (ustr ''http://x/offers/1'') = Inr True"
  by (simp_all add: ustr_def strip_def is_space_def is_detail_url_def env_shop_def http_path_def
      lower_def lower_cp_def)

lemma shop_differ:
  "ustr ''http://x/offers/1'' \<noteq> []" "ustr ''http://x/s'' \<noteq> []" "ustr ''http://x/t'' \<noteq> []"
  "ustr ''http://x/offers/2'' \<noteq> ustr ''http://x/offers/1''"
  "ustr ''http://x/offers/3'' \<noteq> ustr ''http://x/offers/1''"
  "ustr ''http://x/offers/4'' \<noteq> ustr ''http://x/offers/1''"
  "ustr ''http://x/offers/3'' \<noteq> ustr ''http://x/offers/2''"
  "ustr ''http://x/offers/4'' \<noteq> ustr ''http://x/offers/2''"
  "ustr ''http://x/offers/4'' \<noteq> ustr ''http://x/offers/3''"
  by (simp_all add: ustr_def)

lemma shop_collect:
  "collect_listing_urls_from_search env_shop 1 (ustr ''http://x/s'') tr =
     Some (Inr [ustr ''http://x/offers/2'', ustr ''http://x/offers/3'', ustr ''http://x/offers/4''],
           tr @ [ustr ''http://x/s''])"
  "collect_listing_urls_from_search env_shop 1 (ustr ''http://x/t'') tr =
     Some (Inr [ustr ''http://x/offers/2'', ustr ''http://x/offers/3'', ustr ''http://x/offers/4''],
           tr @ [ustr ''http://x/t''])"
  unfolding collect_listing_urls_from_search_def
  by (subst search_loop.simps, simp add: env_shop_def ustr_def)+

text \<open>
  Claim C2: once the accumulated list has reached \<open>max_records\<close>, no later search seed
  is expanded. The code does so when a search seed fills the list, and misses it when a
  detail seed does: with \<open>max_records = 1\<close>, the detail seed \<open>http://x/offers/1\<close>
  fills the list, and the search seed \<open>http://x/t\<close> after it is still fetched, as the
  trace shows. After the search seed \<open>http://x/s\<close> the same seed is not fetched.
\<close>

theorem cap_reached_by_detail_seed:
  "prepare_listing_urls env_shop 1 [ustr ''http://x/offers/1'', ustr ''http://x/t''] =
     Some (Inr [ustr ''http://x/offers/1''], [ustr ''http://x/t'']) \<and>
   prepare_listing_urls env_shop 1 [ustr ''http://x/s'', ustr ''http://x/t''] =
     Some (Inr [ustr ''http://x/offers/2''], [ustr ''http://x/s''])"
  by (simp add: prepare_listing_urls_def shop_urls shop_collect shop_differ py_slice_to_def)

text \<open>
  Claim C5. For a positive \<open>max_records = N\<close>, the list of URLs that work is
  dispatched for has at most \<open>N\<close> entries and no duplicates, however many URLs a seed
  yields. The preparation ends whenever only finitely many pages can be fetched, and
  then it returns such a list unless the parser or \<open>urlparse\<close> raises.
\<close>

theorem prepared_urls_capped:
  assumes "0 < N"
  shows "(\<forall>urls tr. prepare_listing_urls env N seeds = Some (Inr urls, tr) \<longrightarrow>
            int (length urls) \<le> N \<and> distinct urls) \<and>
         (finite {u. fetch env u \<noteq> None} \<longrightarrow>
            (\<exists>outcome tr. prepare_listing_urls env N seeds = Some (outcome, tr))) \<and>
         (finite {u. fetch env u \<noteq> None} \<and> never_raises env \<longrightarrow>
            (\<exists>urls tr. prepare_listing_urls env N seeds = Some (Inr urls, tr)))"
proof -
  have a: "\<forall>urls tr. prepare_listing_urls env N seeds = Some (Inr urls, tr) \<longrightarrow>
            int (length urls) \<le> N \<and> distinct urls"
    using assms prepare_distinct[of N env seeds] by auto
  have b: "finite {u. fetch env u \<noteq> None} \<longrightarrow>
            (\<exists>outcome tr. prepare_listing_urls env N seeds = Some (outcome, tr))"
    using prepare_terminates[of env N seeds] by blast
  have c: "finite {u. fetch env u \<noteq> None} \<and> never_raises env \<longrightarrow>
            (\<exists>urls tr. prepare_listing_urls env N seeds = Some (Inr urls, tr))"
  proof
    assume h: "finite {u. fetch env u \<noteq> None} \<and> never_raises env"
    then obtain outcome tr where p: "prepare_listing_urls env N seeds = Some (outcome, tr)"
      using prepare_terminates[of env N seeds] by blast
    then obtain urls where "outcome = Inr urls" using prepare_quiet[of env N seeds] h by blast
    then show "\<exists>urls tr. prepare_listing_urls env N seeds = Some (Inr urls, tr)"
      using p by blast
  qed
  show ?thesis using a b c by blast
qed

lemma shop_finite: "finite {u. fetch env_shop u \<noteq> None}"
proof -
  have "{u. fetch env_shop u \<noteq> None} = {ustr ''http://x/s'', ustr ''http://x/t''}"
    by (auto simp: env_shop_def)
  then show ?thesis by simp
qed

lemma shop_quiet: "never_raises env_shop"
  by (simp add: never_raises_def env_shop_def)

lemma shop_collect_2:
  "collect_listing_urls_from_search env_shop 2 (ustr ''http://x/s'') tr =
     Some (Inr [ustr ''http://x/offers/2'', ustr ''http://x/offers/3'', ustr ''http://x/offers/4''],
           tr @ [ustr ''http://x/s''])"
  unfolding collect_listing_urls_from_search_def
  by (subst search_loop.simps, simp add: env_shop_def ustr_def)

theorem prepared_urls_capped_witness:
  "(0::int) < 2 \<and> finite {u. fetch env_shop u \<noteq> None} \<and> never_raises env_shop \<and>
   prepare_listing_urls env_shop 2 [ustr ''http://x/s''] =
     Some (Inr [ustr ''http://x/offers/2'', ustr ''http://x/offers/3''], [ustr ''http://x/s'']) \<and>
   int (length [ustr ''http://x/offers/2'', ustr ''http://x/offers/3'']) \<le> 2 \<and>
   distinct [ustr ''http://x/offers/2'', ustr ''http://x/offers/3'']"
proof -
  have z: "(0::int) < 2" by simp
  have p: "prepare_listing_urls env_shop 2 [ustr ''http://x/s''] =
     Some (Inr [ustr ''http://x/offers/2'', ustr ''http://x/offers/3''], [ustr ''http://x/s''])"
    by (simp add: prepare_listing_urls_def shop_urls shop_collect_2 shop_differ py_slice_to_def)
  have "int (length [ustr ''http://x/offers/2'', ustr ''http://x/offers/3'']) \<le> 2 \<and>
   distinct [ustr ''http://x/offers/2'', ustr ''http://x/offers/3'']"
    using prepared_urls_capped[OF z, of env_shop "[ustr ''http://x/s'']"] p by blast
  then show ?thesis using p shop_finite shop_quiet by simp
qed

section \<open>Expanding a search URL\<close>

lemma page_chain_nonempty: "page_chain env seed k = Some u \<Longrightarrow> u \<noteq> []"
  by (cases k) (auto simp: next_page_def split: option.splits sum.splits prod.splits if_splits)

lemma chain_pages_set:
  "u \<in> set (chain_pages env seed k) \<longleftrightarrow> (\<exists>i<k. page_chain env seed i = Some u)"
  by (induction k) (auto simp: less_Suc_eq split: option.splits)

lemma chain_pages_length:
  "(\<forall>i<k. page_chain env seed i \<noteq> None) \<Longrightarrow> length (chain_pages env seed k) = k"
  by (induction k) (auto split: option.splits)

lemma chain_pages_distinct:
  "(\<forall>j<k. \<forall>i<j. page_chain env seed i \<noteq> page_chain env seed j) \<Longrightarrow>
   distinct (chain_pages env seed k)"
  by (induction k) (auto simp: chain_pages_set less_Suc_eq split: option.splits)

lemma chain_pages_nth:
  "(\<forall>i<k. page_chain env seed i \<noteq> None) \<Longrightarrow> i < k \<Longrightarrow>
   page_chain env seed i = Some (chain_pages env seed k ! i)"
  by (induction k) (auto simp: less_Suc_eq nth_append chain_pages_length split: option.splits)

lemma collected_snoc:
  "collected env (pages @ [u]) = append_new (collected env pages) (page_offers env u)"
  by (simp add: collected_def)

lemma search_loop_stop:
  assumes "expansion_stops env m seed n"
  shows "search_loop env m (collected env (chain_pages env seed n)) (set (chain_pages env seed n))
           (page_chain env seed n) trace =
         Some (Inr (collected env (chain_pages env seed n)), trace)"
proof (cases "page_chain env seed n")
  case None
  then show ?thesis by (subst search_loop.simps) simp
next
  case (Some v)
  then have "v \<in> set (chain_pages env seed n) \<or>
             m \<le> int (length (collected env (chain_pages env seed n)))"
    using assms by (auto simp: expansion_stops_def chain_pages_set)
  then show ?thesis using Some by (subst search_loop.simps) auto
qed

lemma search_loop_run:
  assumes stop: "expansion_stops env m seed n"
    and least: "\<forall>k<n. \<not> expansion_stops env m seed k"
  shows "k < n \<Longrightarrow>
         search_loop env m (collected env (chain_pages env seed k)) (set (chain_pages env seed k))
           (page_chain env seed k) (tr @ chain_pages env seed k) =
         Some (expansion_outcome env (chain_pages env seed n), tr @ chain_pages env seed n)"
proof (induction "n - k" arbitrary: k)
  case 0
  then show ?case by simp
next
  case (Suc d)
  have ns: "\<not> expansion_stops env m seed k" using least Suc.prems by blast
  then obtain u where u: "page_chain env seed k = Some u"
    by (auto simp: expansion_stops_def)
  have new: "u \<notin> set (chain_pages env seed k)"
    using ns u by (auto simp: expansion_stops_def chain_pages_set)
  have room: "int (length (collected env (chain_pages env seed k))) < m"
    using ns by (auto simp: expansion_stops_def)
  have ne: "u \<noteq> []" using u by (rule page_chain_nonempty)
  have snoc: "chain_pages env seed (Suc k) = chain_pages env seed k @ [u]"
    using u by simp
  show ?case
  proof (cases "next_page env u")
    case None
    then have "page_chain env seed (Suc k) = None" using u by simp
    then have "expansion_stops env m seed (Suc k)" by (simp add: expansion_stops_def)
    then have n: "n = Suc k" using least Suc.prems by (metis Suc_lessI)
    have "search_loop env m (collected env (chain_pages env seed k))
            (set (chain_pages env seed k)) (Some u) (tr @ chain_pages env seed k) =
          Some (expansion_outcome env (chain_pages env seed k @ [u]),
                tr @ chain_pages env seed k @ [u])"
      using None new room ne
      by (subst search_loop.simps)
         (auto simp: expansion_outcome_def page_raises_def page_result_def page_offers_def
            collected_snoc next_page_def
            split: option.splits sum.splits if_splits prod.splits)
    then show ?thesis using n u snoc by simp
  next
    case (Some v)
    then obtain html page_urls where p: "fetch env u = Some html" "html \<noteq> []"
        "parse_search_page env html u = Inr (page_urls, Some v)" "v \<noteq> []"
      by (auto simp: next_page_def page_result_def
            split: option.splits sum.splits if_splits prod.splits)
    have offers: "page_offers env u = page_urls" and quiet: "page_raises env u = None"
      using p by (simp_all add: page_offers_def page_raises_def page_result_def)
    have next_state: "page_chain env seed (Suc k) = Some v" using u Some by simp
    have step: "search_loop env m (collected env (chain_pages env seed k))
            (set (chain_pages env seed k)) (Some u) (tr @ chain_pages env seed k) =
          search_loop env m (collected env (chain_pages env seed (Suc k)))
            (set (chain_pages env seed (Suc k))) (page_chain env seed (Suc k))
            (tr @ chain_pages env seed (Suc k))"
      using new room ne p offers next_state snoc
      by (subst search_loop.simps) (simp add: collected_snoc)
    show ?thesis
    proof (cases "Suc k < n")
      case True
      moreover have "d = n - Suc k" using Suc.hyps(2) by simp
      ultimately show ?thesis using Suc.hyps(1)[of "Suc k"] step u by simp
    next
      case False
      then have n: "n = Suc k" using Suc.prems by simp
      have "expansion_outcome env (chain_pages env seed n) =
            Inr (collected env (chain_pages env seed n))"
        using n snoc quiet by (simp add: expansion_outcome_def)
      then show ?thesis using search_loop_stop[OF stop] step u n by simp
    qed
  qed
qed

lemma expansion_result:
  assumes stop: "expansion_stops env m seed n"
    and least: "\<forall>k<n. \<not> expansion_stops env m seed k"
  shows "collect_listing_urls_from_search env m seed tr =
         Some (expansion_outcome env (chain_pages env seed n), tr @ chain_pages env seed n)"
proof (cases n)
  case 0
  then have "seed = [] \<or> m \<le> 0"
    using stop by (auto simp: expansion_stops_def collected_def split: if_splits)
  then show ?thesis
    using 0 unfolding collect_listing_urls_from_search_def
    by (subst search_loop.simps) (auto simp: expansion_outcome_def collected_def)
next
  case (Suc n')
  then have "\<not> expansion_stops env m seed 0" using least by simp
  then have "page_chain env seed 0 = Some seed"
    by (auto simp: expansion_stops_def split: if_splits)
  then show ?thesis
    using search_loop_run[OF stop least, of 0 tr] Suc
    by (simp add: collect_listing_urls_from_search_def collected_def)
qed

lemma expansion_pages:
  assumes "\<forall>k<n. \<not> expansion_stops env m seed k"
  shows "length (chain_pages env seed n) = n \<and> distinct (chain_pages env seed n) \<and>
         (\<forall>k<n. page_chain env seed k = Some (chain_pages env seed n ! k))"
proof -
  have some: "\<forall>i<n. page_chain env seed i \<noteq> None"
    using assms by (auto simp: expansion_stops_def)
  have differ: "\<forall>j<n. \<forall>i<j. page_chain env seed i \<noteq> page_chain env seed j"
    using assms by (auto simp: expansion_stops_def)
  show ?thesis
    using chain_pages_length[OF some] chain_pages_distinct[OF differ] chain_pages_nth[OF some]
    by simp
qed

text \<open>
  Claim C6, amended. The expansion of a seed returns whenever the chain of next links
  from the seed ends, comes back to a page it has passed, or has yielded
  \<open>max_records\<close> detail URLs; the site may answer every URL. It then stops at the
  first page \<open>n\<close> of the chain at which one of the three holds: it has fetched the
  \<open>n\<close> pages before it, each once and in the order of the chain, and nothing else, so
  that a repeated page is not fetched again; and it returns the detail URLs of these
  pages in first-seen order, unless the parser raised on the last of them, in which
  case that exception leaves the expansion and no URL is returned.
\<close>

theorem search_expansion_terminates:
  assumes "expansion_stops env m seed j"
  shows "\<exists>n\<le>j. expansion_stops env m seed n \<and> (\<forall>k<n. \<not> expansion_stops env m seed k) \<and>
           collect_listing_urls_from_search env m seed tr =
             Some (expansion_outcome env (chain_pages env seed n), tr @ chain_pages env seed n) \<and>
           length (chain_pages env seed n) = n \<and> distinct (chain_pages env seed n) \<and>
           (\<forall>k<n. page_chain env seed k = Some (chain_pages env seed n ! k))"
proof -
  define n where "n = (LEAST k. expansion_stops env m seed k)"
  have stop: "expansion_stops env m seed n" unfolding n_def using assms by (rule LeastI)
  have le: "n \<le> j" unfolding n_def using assms by (rule Least_le)
  have least: "\<forall>k<n. \<not> expansion_stops env m seed k"
    unfolding n_def using not_less_Least by blast
  show ?thesis
    using stop le least expansion_result[OF stop least, of tr] expansion_pages[OF least]
    by blast
qed

lemma cycle_differ:
  "ustr ''http://x/a'' \<noteq> []" "ustr ''http://x/b'' \<noteq> []"
  "ustr ''http://x/b'' \<noteq> ustr ''http://x/a''"
  "ustr ''http://x/a'' \<noteq> ustr ''http://x/b''"
  "ustr ''http://x/offers/2'' \<noteq> ustr ''http://x/offers/1''"
  "ustr ''<html>'' \<noteq> []"
  by (simp_all add: ustr_def)

lemma cycle_pages:
  "page_result env_cycle (ustr ''http://x/a'') =
     Some (Inr ([ustr ''http://x/offers/1''], Some (ustr ''http://x/b'')))"
  "page_result env_cycle (ustr ''http://x/b'') =
     Some (Inr ([ustr ''http://x/offers/2''], Some (ustr ''http://x/a'')))"
  by (simp_all add: page_result_def env_cycle_def cycle_differ)

lemma cycle_chain:
  "page_chain env_cycle (ustr ''http://x/a'') 0 = Some (ustr ''http://x/a'')"
  "page_chain env_cycle (ustr ''http://x/a'') (Suc 0) = Some (ustr ''http://x/b'')"
  "page_chain env_cycle (ustr ''http://x/a'') (Suc (Suc 0)) = Some (ustr ''http://x/a'')"
  by (simp_all add: next_page_def cycle_pages cycle_differ)

lemma cycle_chain_pages:
  "chain_pages env_cycle (ustr ''http://x/a'') 0 = []"
  "chain_pages env_cycle (ustr ''http://x/a'') (Suc 0) = [ustr ''http://x/a'']"
  "chain_pages env_cycle (ustr ''http://x/a'') (Suc (Suc 0)) =
     [ustr ''http://x/a'', ustr ''http://x/b'']"
  by (simp_all add: cycle_chain cycle_differ del: page_chain.simps)

lemma cycle_collected:
  "collected env_cycle [] = []"
  "collected env_cycle [ustr ''http://x/a''] = [ustr ''http://x/offers/1'']"
  "collected env_cycle [ustr ''http://x/a'', ustr ''http://x/b''] =
     [ustr ''http://x/offers/1'', ustr ''http://x/offers/2'']"
  by (simp_all add: collected_def page_offers_def cycle_pages cycle_differ)

lemma cycle_stops:
  "\<not> expansion_stops env_cycle 10 (ustr ''http://x/a'') 0"
  "\<not> expansion_stops env_cycle 10 (ustr ''http://x/a'') (Suc 0)"
  "expansion_stops env_cycle 10 (ustr ''http://x/a'') (Suc (Suc 0))"
proof -
  show "\<not> expansion_stops env_cycle 10 (ustr ''http://x/a'') 0"
    by (simp add: expansion_stops_def cycle_chain cycle_chain_pages cycle_collected cycle_differ
          del: page_chain.simps chain_pages.simps)
  show "\<not> expansion_stops env_cycle 10 (ustr ''http://x/a'') (Suc 0)"
    by (simp add: expansion_stops_def cycle_chain cycle_chain_pages cycle_collected cycle_differ
          del: page_chain.simps chain_pages.simps)
  have "page_chain env_cycle (ustr ''http://x/a'') 0 =
        page_chain env_cycle (ustr ''http://x/a'') (Suc (Suc 0))"
    by (simp only: cycle_chain)
  then show "expansion_stops env_cycle 10 (ustr ''http://x/a'') (Suc (Suc 0))"
    unfolding expansion_stops_def by blast
qed

theorem search_expansion_terminates_witness:
  "expansion_stops env_cycle 10 (ustr ''http://x/a'') 2 \<and>
   page_chain env_cycle (ustr ''http://x/a'') 2 = page_chain env_cycle (ustr ''http://x/a'') 0 \<and>
   fetch env_cycle = (\<lambda>u. Some (ustr ''<html>'')) \<and>
   collect_listing_urls_from_search env_cycle 10 (ustr ''http://x/a'') [] =
     Some (Inr [ustr ''http://x/offers/1'', ustr ''http://x/offers/2''],
           [ustr ''http://x/a'', ustr ''http://x/b''])"
proof -
  have two: "(2::nat) = Suc (Suc 0)" by simp
  have s: "expansion_stops env_cycle 10 (ustr ''http://x/a'') 2"
    using cycle_stops(3) by (simp only: two)
  obtain n where n: "n \<le> 2" "expansion_stops env_cycle 10 (ustr ''http://x/a'') n"
    "collect_listing_urls_from_search env_cycle 10 (ustr ''http://x/a'') [] =
       Some (expansion_outcome env_cycle (chain_pages env_cycle (ustr ''http://x/a'') n),
             [] @ chain_pages env_cycle (ustr ''http://x/a'') n)"
    using search_expansion_terminates[OF s, of "[]"] by blast
  have "n = 0 \<or> n = Suc 0 \<or> n = Suc (Suc 0)" using n(1) by arith
  then have "n = Suc (Suc 0)" using n(2) cycle_stops by blast
  then have c: "collect_listing_urls_from_search env_cycle 10 (ustr ''http://x/a'') [] =
     Some (Inr [ustr ''http://x/offers/1'', ustr ''http://x/offers/2''],
           [ustr ''http://x/a'', ustr ''http://x/b''])"
    using n(3)
    by (simp add: cycle_chain_pages expansion_outcome_def page_raises_def cycle_pages
          cycle_collected del: page_chain.simps chain_pages.simps)
  have r: "page_chain env_cycle (ustr ''http://x/a'') 2 =
           page_chain env_cycle (ustr ''http://x/a'') 0"
    by (simp only: two cycle_chain)
  have f: "fetch env_cycle = (\<lambda>u. Some (ustr ''<html>''))" by (simp add: env_cycle_def)
  show ?thesis using s r f c by blast
qed

lemma endless_never_returns:
  assumes "search_loop env m acc visited next_url tr = Some y"
  shows "\<not> (env = env_endless \<and> m = 1 \<and> acc = [] \<and>
            (\<exists>u. next_url = Some u \<and> u \<noteq> [] \<and> u \<notin> visited \<and> (\<forall>v \<in> visited. length v < length u)))"
proof (rule search_loop.raw_induct[OF _ assms])
  fix f :: "crawl_env \<Rightarrow> int \<Rightarrow> ustr list \<Rightarrow> ustr set \<Rightarrow> ustr option \<Rightarrow> ustr list \<Rightarrow>
   ((exn + ustr list) \<times> ustr list) option"
  fix env m acc visited next_url tr y
  assume ih: "\<And>env m acc visited next_url tr y. f env m acc visited next_url tr = Some y \<Longrightarrow>
    \<not> (env = env_endless \<and> m = 1 \<and> acc = [] \<and>
            (\<exists>u. next_url = Some u \<and> u \<noteq> [] \<and> u \<notin> visited \<and> (\<forall>v \<in> visited. length v < length u)))"
  assume body: "(case next_url of
        None \<Rightarrow> Some (Inr acc, tr)
      | Some url \<Rightarrow>
          if url = [] \<or> \<not> int (length acc) < m then Some (Inr acc, tr)
          else if url \<in> visited then Some (Inr acc, tr)
          else
            (case fetch env url of
               None \<Rightarrow> Some (Inr acc, tr @ [url])
             | Some html \<Rightarrow>
                 if html = [] then Some (Inr acc, tr @ [url])
                 else
                   (case parse_search_page env html url of
                      Inl e \<Rightarrow> Some (Inl e, tr @ [url])
                    | Inr (page_urls, next_url') \<Rightarrow>
                        if next_url' = None \<or> next_url' = Some []
                        then Some (Inr (append_new acc page_urls), tr @ [url])
                        else f env m (append_new acc page_urls)
                               (insert url visited) next_url' (tr @ [url])))) = Some y"
  show "\<not> (env = env_endless \<and> m = 1 \<and> acc = [] \<and>
            (\<exists>u. next_url = Some u \<and> u \<noteq> [] \<and> u \<notin> visited \<and> (\<forall>v \<in> visited. length v < length u)))"
  proof
    assume "env = env_endless \<and> m = 1 \<and> acc = [] \<and>
            (\<exists>u. next_url = Some u \<and> u \<noteq> [] \<and> u \<notin> visited \<and> (\<forall>v \<in> visited. length v < length u))"
    then obtain u where e: "env = env_endless" "m = 1" "acc = []" "next_url = Some u" "u \<noteq> []"
      "u \<notin> visited" "\<forall>v \<in> visited. length v < length u" by blast
    have "f env_endless 1 [] (insert u visited) (Some (u @ ustr ''+'')) (tr @ [u]) = Some y"
      using body e by (simp add: env_endless_def ustr_def)
    then have "\<not> (u @ ustr ''+'' \<noteq> [] \<and> u @ ustr ''+'' \<notin> insert u visited \<and>
        (\<forall>v \<in> insert u visited. length v < length (u @ ustr ''+'')))"
      using ih by blast
    moreover have "u @ ustr ''+'' \<notin> insert u visited" using e(7) by (auto simp: ustr_def)
    moreover have "\<forall>v \<in> insert u visited. length v < length (u @ ustr ''+'')"
      using e(7) by (auto simp: ustr_def)
    ultimately show False by simp
  qed
qed

text \<open>
  Claim C6 as it was stated lets the expansion end for every seed. On a site whose
  every page names a new next page and lists no offer, the loop never returns.
\<close>

theorem endless_site_counterexample:
  "collect_listing_urls_from_search env_endless 1 (ustr ''http://x/s'') [] = None"
proof (cases "collect_listing_urls_from_search env_endless 1 (ustr ''http://x/s'') []")
  case None
  then show ?thesis .
next
  case (Some y)
  then have "search_loop env_endless 1 [] {} (Some (ustr ''http://x/s'')) [] = Some y"
    by (simp add: collect_listing_urls_from_search_def)
  then show ?thesis using endless_never_returns by (fastforce simp: ustr_def)
qed

section \<open>Scraping the listings\<close>

lemma normalize_listing_nonempty: "dom (normalize_listing repr r) \<noteq> {}"
proof -
  have "''title'' \<in> set text_keys" by (simp add: text_keys_def)
  then have "normalize_listing repr r ''title'' \<noteq> None" by (simp add: normalize_text_key)
  then show ?thesis by auto
qed

lemma scrape_single_nonempty: "scrape_single_listing env u = Inr (Some r) \<Longrightarrow> dom r \<noteq> {}"
  using normalize_listing_nonempty
  by (auto simp: scrape_single_listing_def split: option.splits if_splits sum.splits)

lemma collect_results_eq:
  "collect_results env us acc = acc @ List.map_filter (task_record env) us"
proof (induction us arbitrary: acc)
  case Nil
  then show ?case by simp
next
  case (Cons u us)
  show ?case
  proof (cases "scrape_single_listing env u")
    case (Inl e)
    then show ?thesis using Cons by (simp add: task_record_def)
  next
    case (Inr rcd)
    show ?thesis
    proof (cases rcd)
      case None
      then show ?thesis using Cons Inr by (simp add: task_record_def)
    next
      case (Some r)
      then have "dom r \<noteq> {}" using Inr scrape_single_nonempty by blast
      then show ?thesis using Cons Inr Some by (simp add: task_record_def)
    qed
  qed
qed

lemma length_filter_other:
  "distinct xs \<Longrightarrow> x \<in> set xs \<Longrightarrow> length (filter (\<lambda>y. y \<noteq> x) xs) = length xs - 1"
proof -
  assume d: "distinct xs" and x: "x \<in> set xs"
  have "filter (\<lambda>y. y \<noteq> x) xs = removeAll x xs" by (simp add: removeAll_filter_not_eq) (metis)
  also have "\<dots> = remove1 x xs" using d by (simp add: distinct_remove1_removeAll)
  finally show ?thesis using x by (simp add: length_remove1)
qed

lemma one_task_fails:
  assumes p: "prepare_listing_urls env N seeds = Some (Inr urls, tr)"
    and c: "mset completed = mset urls"
    and b: "bad \<in> set urls"
    and f: "(\<exists>e. scrape_single_listing env bad = Inl e) \<or> scrape_single_listing env bad = Inr None"
    and s: "\<forall>u \<in> set urls. u \<noteq> bad \<longrightarrow> (\<exists>r. scrape_single_listing env u = Inr (Some r))"
  shows "scrape env N seeds completed = Some (Inr (List.map_filter (task_record env) completed)) \<and>
         length (List.map_filter (task_record env) completed) = length urls - 1 \<and>
         task_record env bad = None"
proof -
  have ne: "urls \<noteq> []" using b by auto
  have sc: "scrape env N seeds completed = Some (Inr (List.map_filter (task_record env) completed))"
    using p ne by (simp add: scrape_def collect_results_eq)
  have tb: "task_record env bad = None" using f by (auto simp: task_record_def)
  have set_eq: "set completed = set urls" using c by (metis set_mset_mset)
  have d: "distinct completed" using prepare_urls_distinct[OF p] c by (metis mset_eq_imp_distinct_iff)
  have "filter (\<lambda>u. task_record env u \<noteq> None) completed = filter (\<lambda>u. u \<noteq> bad) completed"
  proof (rule filter_cong[OF refl])
    fix u
    assume "u \<in> set completed"
    then have "u \<in> set urls" using set_eq by simp
    then show "(task_record env u \<noteq> None) = (u \<noteq> bad)"
      using s tb by (auto simp: task_record_def)
  qed
  then have "length (List.map_filter (task_record env) completed) =
      length (filter (\<lambda>u. u \<noteq> bad) completed)"
    by (simp add: map_filter_def)
  also have "\<dots> = length completed - 1"
    using d b set_eq by (simp add: length_filter_other)
  also have "length completed = length urls" using c by (metis size_mset)
  finally show ?thesis using sc tb by simp
qed

text \<open>
  Claim C9. When the task of exactly one of the \<open>K\<close> prepared URLs fails, by a failed
  fetch or by an exception, and the tasks of the others return their records, then in
  whatever order the tasks finish \<open>scrape\<close> returns normally with exactly \<open>K - 1\<close>
  records: the record of every other URL, and nothing for the failed one.
\<close>

theorem scrape_isolates_failure:
  assumes "prepare_listing_urls env N seeds = Some (Inr urls, tr)"
    and "mset completed = mset urls"
    and "bad \<in> set urls"
    and "(\<exists>e. scrape_single_listing env bad = Inl e) \<or> scrape_single_listing env bad = Inr None"
    and "\<forall>u \<in> set urls. u \<noteq> bad \<longrightarrow> (\<exists>r. scrape_single_listing env u = Inr (Some r))"
  shows "\<exists>results. scrape env N seeds completed = Some (Inr results) \<and>
           length results = length urls - 1 \<and>
           results = List.map_filter (task_record env) completed \<and>
           task_record env bad = None"
  using one_task_fails[OF assms] by blast

lemma offers_urls:
  "strip (ustr ''http://x/offers/1'') = ustr ''http://x/offers/1''"
  "strip (ustr ''http://x/offers/2'') = ustr ''http://x/offers/2''"
  "strip (ustr ''http://x/offers/3'') = ustr ''http://x/offers/3''"
  "is_detail_url env_offers (ustr ''http://x/offers/1'') = Inr True"
  "is_detail_url env_offers (ustr ''http://x/offers/2'') = Inr True"
  "is_detail_url env_offers (ustr ''http://x/offers/3'') = Inr True"
  by (simp_all add: ustr_def strip_def is_space_def is_detail_url_def env_offers_def http_path_def
      lower_def lower_cp_def)

lemma offers_differ:
  "ustr ''http://x/offers/1'' \<noteq> []" "ustr ''http://x/offers/2'' \<noteq> []"
  "ustr ''http://x/offers/3'' \<noteq> []"
  "ustr ''http://x/offers/2'' \<noteq> ustr ''http://x/offers/1''"
  "ustr ''http://x/offers/3'' \<noteq> ustr ''http://x/offers/1''"
  "ustr ''http://x/offers/3'' \<noteq> ustr ''http://x/offers/2''"
  "ustr ''http://x/offers/1'' \<noteq> ustr ''http://x/offers/2''"
  "ustr ''http://x/offers/2'' \<noteq> ustr ''http://x/offers/3''"
  "ustr ''http://x/offers/1'' \<noteq> ustr ''http://x/offers/3''"
  "ustr ''<html>'' \<noteq> []"
  by (simp_all add: ustr_def)

lemma offers_prepared:
  "prepare_listing_urls env_offers 10
     [ustr ''http://x/offers/1'', ustr ''http://x/offers/2'', ustr ''http://x/offers/3''] =
   Some (Inr [ustr ''http://x/offers/1'', ustr ''http://x/offers/2'', ustr ''http://x/offers/3''], [])"
  by (simp add: prepare_listing_urls_def offers_urls offers_differ)

lemma offers_tasks:
  "scrape_single_listing env_offers (ustr ''http://x/offers/2'') = Inr None"
  "\<exists>r. scrape_single_listing env_offers (ustr ''http://x/offers/1'') = Inr (Some r)"
  "\<exists>r. scrape_single_listing env_offers (ustr ''http://x/offers/3'') = Inr (Some r)"
  by (simp_all add: scrape_single_listing_def env_offers_def offers_differ)

theorem scrape_isolates_failure_witness:
  "prepare_listing_urls env_offers 10
     [ustr ''http://x/offers/1'', ustr ''http://x/offers/2'', ustr ''http://x/offers/3''] =
   Some (Inr [ustr ''http://x/offers/1'', ustr ''http://x/offers/2'', ustr ''http://x/offers/3''], []) \<and>
   scrape_single_listing env_offers (ustr ''http://x/offers/2'') = Inr None \<and>
   (\<exists>results.
      scrape env_offers 10
        [ustr ''http://x/offers/1'', ustr ''http://x/offers/2'', ustr ''http://x/offers/3'']
        [ustr ''http://x/offers/3'', ustr ''http://x/offers/1'', ustr ''http://x/offers/2''] =
        Some (Inr results) \<and>
      length results = 2)"
proof -
  let ?urls = "[ustr ''http://x/offers/1'', ustr ''http://x/offers/2'', ustr ''http://x/offers/3'']"
  let ?done = "[ustr ''http://x/offers/3'', ustr ''http://x/offers/1'', ustr ''http://x/offers/2'']"
  have c: "mset ?done = mset ?urls" by simp
  have b: "ustr ''http://x/offers/2'' \<in> set ?urls" by simp
  have f: "(\<exists>e. scrape_single_listing env_offers (ustr ''http://x/offers/2'') = Inl e) \<or>
      scrape_single_listing env_offers (ustr ''http://x/offers/2'') = Inr None"
    by (simp add: offers_tasks)
  have s: "\<forall>u \<in> set ?urls. u \<noteq> ustr ''http://x/offers/2'' \<longrightarrow>
      (\<exists>r. scrape_single_listing env_offers u = Inr (Some r))"
    using offers_tasks by simp
  obtain results where "scrape env_offers 10 ?urls ?done = Some (Inr results)"
    "length results = length ?urls - 1"
    using scrape_isolates_failure[OF offers_prepared c b f s] by blast
  then show ?thesis using offers_prepared offers_tasks(1) by simp
qed


end
